theory Spec2Isabelle
  imports Complex_Main
begin

section \<open>Data model of \<^verbatim>\<open>pathfinding.js\<close>\<close>

text \<open>
  A \<^verbatim>\<open>Node\<close> object is referred to by the grid position it is allocated at: the
  constructor of \<^verbatim>\<open>Grid\<close> stores exactly one fresh object at \<^verbatim>\<open>nodes[y][x]\<close>, so the
  reference to that object is the pair \<open>(x, y)\<close>, and the grid's array of arrays is a store
  from references to node records. The open set, the closed set and the \<^verbatim>\<open>parent\<close> field
  hold references. Every array read of the source is guarded by \<^verbatim>\<open>_isInBounds\<close> or by the
  loop bounds, so the store is never read outside the bounds. JavaScript numbers are
  modelled as \<open>int\<close>: cells are identified by integer coordinates and costs are sums of
  ones and of absolute differences of coordinates. \<open>findPath\<close> below is the call on
  integer coordinates; \<open>findPath_number\<close> (section on arbitrary number arguments) is the
  call on any finite number, with the exception a non-integer coordinate raises.

  The fields \<^verbatim>\<open>x, y, walkable, g, h, f, parent\<close> carry the prefix \<open>node_\<close>.
\<close>

type_synonym ref = "int \<times> int"

type_synonym coord = "int \<times> int"

record node =
  node_x :: int
  node_y :: int
  node_walkable :: bool
  node_g :: int
  node_h :: int
  node_f :: int
  node_parent :: "ref option"

definition Node :: "int \<Rightarrow> int \<Rightarrow> bool \<Rightarrow> node" where
  "Node x y walkable =
     \<lparr>node_x = x, node_y = y, node_walkable = walkable,
      node_g = 0, node_h = 0, node_f = 0, node_parent = None\<rparr>"

record grid =
  width :: int
  height :: int
  nodes :: "ref \<Rightarrow> node"

text \<open>Assignment to one field of the object behind a reference.\<close>

definition update_node :: "grid \<Rightarrow> ref \<Rightarrow> (node \<Rightarrow> node) \<Rightarrow> grid" where
  "update_node G r upd = G\<lparr>nodes := (nodes G)(r := upd (nodes G r))\<rparr>"

subsection \<open>Grid\<close>

text \<open>
  \<^verbatim>\<open>_initializeGrid\<close>: the two nested counting loops, rows outside. The store before
  allocation holds a placeholder that no operation reads.
\<close>

definition initializeGrid :: "int \<Rightarrow> int \<Rightarrow> ref \<Rightarrow> node" where
  "initializeGrid w h =
     fold (\<lambda>y ns. fold (\<lambda>x ns. ns((x, y) := Node x y True)) [0..w - 1] ns) [0..h - 1]
       (\<lambda>r. Node 0 0 False)"

definition Grid :: "int \<Rightarrow> int \<Rightarrow> grid" where
  "Grid w h = \<lparr>width = w, height = h, nodes = initializeGrid w h\<rparr>"

definition isInBounds :: "grid \<Rightarrow> int \<Rightarrow> int \<Rightarrow> bool" where
  "isInBounds G x y \<longleftrightarrow> x \<ge> 0 \<and> x < width G \<and> y \<ge> 0 \<and> y < height G"

definition isWalkable :: "grid \<Rightarrow> int \<Rightarrow> int \<Rightarrow> bool" where
  "isWalkable G x y \<longleftrightarrow> isInBounds G x y \<and> node_walkable (nodes G (x, y))"

definition getNode :: "grid \<Rightarrow> int \<Rightarrow> int \<Rightarrow> ref option" where
  "getNode G x y = (if isWalkable G x y then Some (x, y) else None)"

definition setWalkable :: "grid \<Rightarrow> int \<Rightarrow> int \<Rightarrow> bool \<Rightarrow> grid" where
  "setWalkable G x y walkable =
     (if isInBounds G x y then update_node G (x, y) (\<lambda>n. n\<lparr>node_walkable := walkable\<rparr>)
      else G)"

text \<open>The direction table of \<^verbatim>\<open>getNeighbors\<close>, after the optional \<^verbatim>\<open>push\<close>.\<close>

definition directions :: "bool \<Rightarrow> (int \<times> int) list" where
  "directions diagonal =
     [(0, -1), (1, 0), (0, 1), (-1, 0)] @
     (if diagonal then [(1, -1), (1, 1), (-1, 1), (-1, -1)] else [])"

text \<open>The \<^verbatim>\<open>for (const dir of directions)\<close> loop; \<open>neighbors\<close> is the array built so far.\<close>

fun collectNeighbors :: "grid \<Rightarrow> ref \<Rightarrow> (int \<times> int) list \<Rightarrow> ref list \<Rightarrow> ref list" where
  "collectNeighbors G node [] neighbors = neighbors"
| "collectNeighbors G node (dir # dirs) neighbors =
     (let newX = node_x (nodes G node) + fst dir;
          newY = node_y (nodes G node) + snd dir
      in case getNode G newX newY of
           Some neighbor \<Rightarrow> collectNeighbors G node dirs (neighbors @ [neighbor])
         | None \<Rightarrow> collectNeighbors G node dirs neighbors)"

definition getNeighbors :: "grid \<Rightarrow> ref \<Rightarrow> bool \<Rightarrow> ref list" where
  "getNeighbors G node diagonal = collectNeighbors G node (directions diagonal) []"

definition resetNode :: "node \<Rightarrow> node" where
  "resetNode n = n\<lparr>node_g := 0, node_h := 0, node_f := 0, node_parent := None\<rparr>"

definition reset :: "grid \<Rightarrow> grid" where
  "reset G =
     G\<lparr>nodes :=
        fold (\<lambda>y ns. fold (\<lambda>x ns. ns((x, y) := resetNode (ns (x, y)))) [0..width G - 1] ns)
          [0..height G - 1] (nodes G)\<rparr>"

text \<open>
  What the constructor establishes and every operation keeps: the object at
  \<^verbatim>\<open>nodes[y][x]\<close> carries the coordinates \<open>(x, y)\<close>.
\<close>

definition wf_grid :: "grid \<Rightarrow> bool" where
  "wf_grid G \<longleftrightarrow>
     (\<forall>y \<in> {0..<height G}. \<forall>x \<in> {0..<width G}.
        node_x (nodes G (x, y)) = x \<and> node_y (nodes G (x, y)) = y)"

subsection \<open>Pathfinder\<close>

definition heuristic :: "grid \<Rightarrow> ref \<Rightarrow> ref \<Rightarrow> int" where
  "heuristic G nodeA nodeB =
     \<bar>node_x (nodes G nodeA) - node_x (nodes G nodeB)\<bar> +
     \<bar>node_y (nodes G nodeA) - node_y (nodes G nodeB)\<bar>"

text \<open>
  \<^verbatim>\<open>_reconstructPath\<close>: the loop follows \<^verbatim>\<open>parent\<close> until \<^verbatim>\<open>null\<close> and never returns on a
  cyclic chain, so its result is optional (\<open>None\<close>: no return).
\<close>

partial_function (option) reconstructLoop :: "grid \<Rightarrow> ref option \<Rightarrow> coord list \<Rightarrow> coord list option"
  where
  "reconstructLoop G current path =
     (case current of
        None \<Rightarrow> Some path
      | Some c \<Rightarrow>
          reconstructLoop G (node_parent (nodes G c))
            ((node_x (nodes G c), node_y (nodes G c)) # path))"

declare reconstructLoop.simps [code]

definition reconstructPath :: "grid \<Rightarrow> ref \<Rightarrow> coord list option" where
  "reconstructPath G node = reconstructLoop G (Some node) []"

text \<open>
  The scan for the lowest \<^verbatim>\<open>f\<close> (lines 141 to 146): \<open>i\<close> counts up, \<open>current\<close> and
  \<open>currentIndex\<close> are the loop's variables.
\<close>

function selectLowest :: "grid \<Rightarrow> ref list \<Rightarrow> nat \<Rightarrow> ref \<Rightarrow> nat \<Rightarrow> ref \<times> nat" where
  "selectLowest G openSet i current currentIndex =
     (if i < length openSet then
        (if node_f (nodes G (openSet ! i)) < node_f (nodes G current)
         then selectLowest G openSet (i + 1) (openSet ! i) i
         else selectLowest G openSet (i + 1) current currentIndex)
      else (current, currentIndex))"
  by pat_completeness auto
termination
  by (relation "measure (\<lambda>(G, openSet, i, current, currentIndex). length openSet - i)") auto

declare selectLowest.simps [simp del]

text \<open>\<^verbatim>\<open>openSet.splice(currentIndex, 1)\<close>.\<close>

definition splice1 :: "'a list \<Rightarrow> nat \<Rightarrow> 'a list" where
  "splice1 xs i = take i xs @ drop (Suc i) xs"

text \<open>Lines 170 to 173, in the order of the source.\<close>

definition relax :: "grid \<Rightarrow> ref \<Rightarrow> ref \<Rightarrow> int \<Rightarrow> ref \<Rightarrow> grid" where
  "relax G neighbor current tentativeG endNode =
     (let G1 = update_node G neighbor (\<lambda>n. n\<lparr>node_parent := Some current\<rparr>);
          G2 = update_node G1 neighbor (\<lambda>n. n\<lparr>node_g := tentativeG\<rparr>);
          G3 = update_node G2 neighbor (\<lambda>n. n\<lparr>node_h := heuristic G2 neighbor endNode\<rparr>)
      in update_node G3 neighbor (\<lambda>n. n\<lparr>node_f := node_g n + node_h n\<rparr>))"

text \<open>The body of \<^verbatim>\<open>for (const neighbor of neighbors)\<close>, on the grid and the open set.\<close>

definition visitNeighbor ::
  "ref \<Rightarrow> ref \<Rightarrow> ref set \<Rightarrow> ref \<Rightarrow> grid \<times> ref list \<Rightarrow> grid \<times> ref list" where
  "visitNeighbor endNode current closedSet neighbor = (\<lambda>(G, openSet).
     if neighbor \<in> closedSet then (G, openSet)
     else
       let tentativeG = node_g (nodes G current) + 1 in
       if neighbor \<notin> set openSet then
         (relax G neighbor current tentativeG endNode, openSet @ [neighbor])
       else if tentativeG \<ge> node_g (nodes G neighbor) then (G, openSet)
       else (relax G neighbor current tentativeG endNode, openSet))"

text \<open>
  One pass through the body of the \<^verbatim>\<open>while\<close> loop, for a non-empty open set: either the
  selected cell is the goal (\<open>Found\<close>, the function returns), or it is expanded and the loop
  goes on with a new grid, open set and closed set.
\<close>

datatype iteration = Found | Expanded grid "ref list" "ref set"

definition loopBody :: "grid \<Rightarrow> ref \<Rightarrow> bool \<Rightarrow> ref list \<Rightarrow> ref set \<Rightarrow> iteration" where
  "loopBody G endNode diagonal openSet closedSet =
     (let (current, currentIndex) = selectLowest G openSet 1 (openSet ! 0) 0 in
      if current = endNode then Found
      else
        let openSet1 = splice1 openSet currentIndex;
            closedSet1 = insert current closedSet;
            neighbors = getNeighbors G current diagonal;
            (G', openSet') = fold (visitNeighbor endNode current closedSet1) neighbors (G, openSet1)
        in Expanded G' openSet' closedSet1)"


text \<open>
  The \<^verbatim>\<open>while (openSet.length > 0)\<close> loop with the final \<^verbatim>\<open>return []\<close>. The result is
  the returned path together with the grid as the call leaves it; \<open>None\<close> stands for a
  path reconstruction that does not return.
\<close>

function searchLoop ::
  "grid \<Rightarrow> ref \<Rightarrow> bool \<Rightarrow> ref list \<Rightarrow> ref set \<Rightarrow> (coord list \<times> grid) option" where
  "searchLoop G endNode diagonal openSet closedSet =
     (if openSet = [] then Some ([], G)
      else case loopBody G endNode diagonal openSet closedSet of
             Found \<Rightarrow> map_option (\<lambda>path. (path, G)) (reconstructPath G endNode)
           | Expanded G' openSet' closedSet' \<Rightarrow>
               searchLoop G' endNode diagonal openSet' closedSet')"
  by pat_completeness auto


text \<open>
  Ghost counter: how many times the body of the \<^verbatim>\<open>while\<close> loop is entered, the returning
  pass included.
\<close>

function iterations :: "grid \<Rightarrow> ref \<Rightarrow> bool \<Rightarrow> ref list \<Rightarrow> ref set \<Rightarrow> nat" where
  "iterations G endNode diagonal openSet closedSet =
     (if openSet = [] then 0
      else case loopBody G endNode diagonal openSet closedSet of
             Found \<Rightarrow> 1
           | Expanded G' openSet' closedSet' \<Rightarrow>
               1 + iterations G' endNode diagonal openSet' closedSet')"
  by pat_completeness auto

text \<open>Lines 132 to 134: the scratch fields of the start cell.\<close>

definition initStart :: "grid \<Rightarrow> ref \<Rightarrow> ref \<Rightarrow> grid" where
  "initStart G startNode endNode =
     (let G1 = update_node G startNode (\<lambda>n. n\<lparr>node_g := 0\<rparr>);
          G2 = update_node G1 startNode (\<lambda>n. n\<lparr>node_h := heuristic G1 startNode endNode\<rparr>)
      in update_node G2 startNode (\<lambda>n. n\<lparr>node_f := node_h n\<rparr>))"

definition findPath ::
  "grid \<Rightarrow> int \<Rightarrow> int \<Rightarrow> int \<Rightarrow> int \<Rightarrow> bool \<Rightarrow> (coord list \<times> grid) option" where
  "findPath G0 startX startY endX endY diagonal =
     (let G = reset G0 in
      case (getNode G startX startY, getNode G endX endY) of
        (Some startNode, Some endNode) \<Rightarrow>
          searchLoop (initStart G startNode endNode) endNode diagonal [startNode] {}
      | _ \<Rightarrow> Some ([], G))"

text \<open>The ghost counter for a whole call: no pass when the call returns at line 126.\<close>

definition findPath_iterations :: "grid \<Rightarrow> int \<Rightarrow> int \<Rightarrow> int \<Rightarrow> int \<Rightarrow> bool \<Rightarrow> nat" where
  "findPath_iterations G0 startX startY endX endY diagonal =
     (let G = reset G0 in
      case (getNode G startX startY, getNode G endX endY) of
        (Some startNode, Some endNode) \<Rightarrow>
          iterations (initStart G startNode endNode) endNode diagonal [startNode] {}
      | _ \<Rightarrow> 0)"

section \<open>Auxiliary notions\<close>

text \<open>
  The part of a grid that a search only reads: the dimensions and, for every object, its
  coordinates and its walkable flag.
\<close>

definition layout :: "grid \<Rightarrow> int \<times> int \<times> (ref \<Rightarrow> int \<times> int \<times> bool)" where
  "layout G = (width G, height G,
     (\<lambda>r. (node_x (nodes G r), node_y (nodes G r), node_walkable (nodes G r))))"


text \<open>The references of the objects the constructor allocates.\<close>

definition inBoundsRefs :: "grid \<Rightarrow> ref set" where
  "inBoundsRefs G = {0..<width G} \<times> {0..<height G}"


text \<open>
  The order in which the \<^verbatim>\<open>while\<close> loop descends: first the number of allocated cells
  outside the closed set, then the number of open-set entries that are closed or not
  allocated.
\<close>

definition loop_order :: "((grid \<times> ref \<times> bool \<times> ref list \<times> ref set) \<times>
    (grid \<times> ref \<times> bool \<times> ref list \<times> ref set)) set" where
  "loop_order = measures
     [\<lambda>(G, e, d, os, cl). card (inBoundsRefs G - cl),
      \<lambda>(G, e, d, os, cl). length (filter (\<lambda>a. a \<in> cl \<or> a \<notin> inBoundsRefs G) os)]"


text \<open>The coordinate object \<^verbatim>\<open>{ x: current.x, y: current.y }\<close> that path reconstruction emits.\<close>

definition coordOf :: "grid \<Rightarrow> ref \<Rightarrow> coord" where
  "coordOf G r = (node_x (nodes G r), node_y (nodes G r))"

text \<open>
  The state of a search between two passes of the loop, for the start cell \<open>start\<close>: the open
  set has no duplicates and is disjoint from the closed set; both hold walkable cells with
  non-negative \<open>g\<close>; the start cell has no parent and \<open>g = 0\<close>; every other cell has a closed
  parent that it neighbours and whose \<open>g\<close> is one less.
\<close>

definition search_inv :: "grid \<Rightarrow> ref \<Rightarrow> bool \<Rightarrow> ref list \<Rightarrow> ref set \<Rightarrow> bool" where
  "search_inv G start diagonal openSet closedSet \<longleftrightarrow>
     distinct openSet \<and> set openSet \<inter> closedSet = {} \<and>
     (\<forall>r \<in> set openSet \<union> closedSet.
        isWalkable G (fst r) (snd r) \<and> 0 \<le> node_g (nodes G r)) \<and>
     (start \<in> closedSet \<or> (openSet = [start] \<and> closedSet = {})) \<and>
     node_parent (nodes G start) = None \<and> node_g (nodes G start) = 0 \<and>
     (\<forall>r \<in> set openSet \<union> closedSet. r \<noteq> start \<longrightarrow>
        (\<exists>p \<in> closedSet. node_parent (nodes G r) = Some p \<and>
           node_g (nodes G r) = node_g (nodes G p) + 1 \<and>
           r \<in> set (getNeighbors G p diagonal)))"

text \<open>
  Paths on the grid: \<open>step_ok\<close> is one permitted direction step, a walk is a non-empty
  sequence of walkable cells joined by such steps, and \<open>reachable\<close> says that some walk leads
  from one cell to another.
\<close>

definition step_ok :: "bool \<Rightarrow> coord \<Rightarrow> coord \<Rightarrow> bool" where
  "step_ok diagonal a b \<longleftrightarrow> (fst b - fst a, snd b - snd a) \<in> set (directions diagonal)"

definition is_walk :: "grid \<Rightarrow> bool \<Rightarrow> coord list \<Rightarrow> bool" where
  "is_walk G diagonal q \<longleftrightarrow>
     q \<noteq> [] \<and> list_all (\<lambda>c. isWalkable G (fst c) (snd c)) q \<and> successively (step_ok diagonal) q"

definition reachable :: "grid \<Rightarrow> bool \<Rightarrow> coord \<Rightarrow> coord \<Rightarrow> bool" where
  "reachable G diagonal a b \<longleftrightarrow> (\<exists>q. is_walk G diagonal q \<and> hd q = a \<and> last q = b)"

text \<open>
  The loop's variables at the start of pass \<open>n + 1\<close>, when the loop gets that far (\<open>None\<close>:
  it has left before).
\<close>

fun nthState ::
  "nat \<Rightarrow> grid \<Rightarrow> ref \<Rightarrow> bool \<Rightarrow> ref list \<Rightarrow> ref set \<Rightarrow> (grid \<times> ref list \<times> ref set) option" where
  "nthState 0 G endNode diagonal openSet closedSet = Some (G, openSet, closedSet)"
| "nthState (Suc n) G endNode diagonal openSet closedSet =
     (if openSet = [] then None
      else case loopBody G endNode diagonal openSet closedSet of
             Found \<Rightarrow> None
           | Expanded G' openSet' closedSet' \<Rightarrow> nthState n G' endNode diagonal openSet' closedSet')"

text \<open>The Manhattan distance between two coordinates.\<close>

definition manhattan :: "coord \<Rightarrow> coord \<Rightarrow> int" where
  "manhattan a b = \<bar>fst a - fst b\<bar> + \<bar>snd a - snd b\<bar>"

text \<open>An open grid: every allocated cell is walkable.\<close>

definition all_walkable :: "grid \<Rightarrow> bool" where
  "all_walkable G \<longleftrightarrow>
     (\<forall>y \<in> {0..<height G}. \<forall>x \<in> {0..<width G}. node_walkable (nodes G (x, y)))"

text \<open>
  The state of a 4-directional search on an open grid: every cell of the open or closed set
  has \<open>f = g + h\<close> with \<open>h\<close> its Manhattan distance to the goal, no closed cell has an
  \<open>f\<close> above the distance from start to goal, the goal is not closed, and every neighbour of
  a closed cell is closed or is open with a \<open>g\<close> at most one higher.
\<close>

definition costs_ok :: "grid \<Rightarrow> ref \<Rightarrow> ref \<Rightarrow> ref list \<Rightarrow> ref set \<Rightarrow> bool" where
  "costs_ok G start endNode openSet closedSet \<longleftrightarrow>
     (\<forall>a \<in> set openSet \<union> closedSet.
        node_f (nodes G a) = node_g (nodes G a) + manhattan a endNode) \<and>
     (\<forall>z \<in> closedSet. node_f (nodes G z) \<le> manhattan start endNode) \<and>
     endNode \<notin> closedSet"

definition settled :: "grid \<Rightarrow> ref list \<Rightarrow> ref set \<Rightarrow> ref \<Rightarrow> ref \<Rightarrow> bool" where
  "settled G openSet closedSet z n \<longleftrightarrow>
     n \<in> closedSet \<or> (n \<in> set openSet \<and> node_g (nodes G n) \<le> node_g (nodes G z) + 1)"

definition astar_inv :: "grid \<Rightarrow> ref \<Rightarrow> ref \<Rightarrow> ref list \<Rightarrow> ref set \<Rightarrow> bool" where
  "astar_inv G start endNode openSet closedSet \<longleftrightarrow>
     costs_ok G start endNode openSet closedSet \<and>
     (\<forall>z \<in> closedSet. \<forall>n \<in> set (getNeighbors G z False). settled G openSet closedSet z n) \<and>
     (closedSet = {} \<longrightarrow> node_f (nodes G start) \<le> manhattan start endNode)"

section \<open>Arbitrary number arguments\<close>

text \<open>
  \<^verbatim>\<open>findPath\<close> accepts any JavaScript number as a coordinate. The definitions below follow
  the same source lines for a finite number that need not be an integer (a rational), and
  they have an outcome for a thrown exception. \<^verbatim>\<open>_isInBounds\<close> compares numbers;
  \<^verbatim>\<open>this.nodes[y][x]\<close> yields an object only for integer indices: for a non-integer \<open>y\<close>
  the row \<^verbatim>\<open>nodes[y]\<close> is \<^verbatim>\<open>undefined\<close> and indexing it throws, for a non-integer \<open>x\<close> the
  element is \<^verbatim>\<open>undefined\<close> and reading its \<^verbatim>\<open>walkable\<close> throws. The \<^verbatim>\<open>&&\<close> of
  \<^verbatim>\<open>_isWalkable\<close> reads the array only in bounds. Once both cells are resolved the search
  works on references, as above.
\<close>

datatype error = TypeError

definition is_integer :: "rat \<Rightarrow> bool" where
  "is_integer x \<longleftrightarrow> of_int \<lfloor>x\<rfloor> = x"

definition isInBounds_number :: "grid \<Rightarrow> rat \<Rightarrow> rat \<Rightarrow> bool" where
  "isInBounds_number G x y \<longleftrightarrow>
     x \<ge> 0 \<and> x < of_int (width G) \<and> y \<ge> 0 \<and> y < of_int (height G)"

text \<open>The array read \<^verbatim>\<open>this.nodes[y][x]\<close>, made in bounds only; \<open>None\<close>: no object.\<close>

definition readNode :: "grid \<Rightarrow> rat \<Rightarrow> rat \<Rightarrow> ref option" where
  "readNode G x y = (if is_integer y \<and> is_integer x then Some (\<lfloor>x\<rfloor>, \<lfloor>y\<rfloor>) else None)"

definition isWalkable_number :: "grid \<Rightarrow> rat \<Rightarrow> rat \<Rightarrow> error + bool" where
  "isWalkable_number G x y =
     (if isInBounds_number G x y then
        (case readNode G x y of
           None \<Rightarrow> Inl TypeError
         | Some r \<Rightarrow> Inr (node_walkable (nodes G r)))
      else Inr False)"

definition getNode_number :: "grid \<Rightarrow> rat \<Rightarrow> rat \<Rightarrow> error + ref option" where
  "getNode_number G x y =
     (case isWalkable_number G x y of
        Inl err \<Rightarrow> Inl err
      | Inr True \<Rightarrow> Inr (readNode G x y)
      | Inr False \<Rightarrow> Inr None)"

text \<open>
  \<^verbatim>\<open>findPath\<close> for number arguments: \<open>Inl\<close> is the exception thrown by one of the two
  \<^verbatim>\<open>getNode\<close> calls of lines 122 and 123, \<open>Inr\<close> the result of the call.
\<close>

definition findPath_number ::
  "grid \<Rightarrow> rat \<Rightarrow> rat \<Rightarrow> rat \<Rightarrow> rat \<Rightarrow> bool \<Rightarrow> error + (coord list \<times> grid) option" where
  "findPath_number G0 startX startY endX endY diagonal =
     (let G = reset G0 in
      case getNode_number G startX startY of
        Inl err \<Rightarrow> Inl err
      | Inr startNode \<Rightarrow>
          (case getNode_number G endX endY of
             Inl err \<Rightarrow> Inl err
           | Inr endNode \<Rightarrow>
               (case (startNode, endNode) of
                  (Some s, Some e) \<Rightarrow> Inr (searchLoop (initStart G s e) e diagonal [s] {})
                | _ \<Rightarrow> Inr (Some ([], G)))))"

section \<open>The unwritten part of the grid\<close>


lemma layoutD:
  assumes "layout G' = layout G"
  shows "width G' = width G" "height G' = height G"
    "node_x (nodes G' r) = node_x (nodes G r)"
    "node_y (nodes G' r) = node_y (nodes G r)"
    "node_walkable (nodes G' r) = node_walkable (nodes G r)"
  using assms by (auto simp: layout_def dest: fun_cong[where x = r])

lemma layout_isInBounds:
  assumes "layout G' = layout G" shows "isInBounds G' x y = isInBounds G x y"
  by (simp add: isInBounds_def layoutD[OF assms])

lemma layout_isWalkable:
  assumes "layout G' = layout G" shows "isWalkable G' x y = isWalkable G x y"
  by (simp add: isWalkable_def layout_isInBounds[OF assms] layoutD[OF assms])

lemma layout_getNode:
  assumes "layout G' = layout G" shows "getNode G' x y = getNode G x y"
  by (simp add: getNode_def layout_isWalkable[OF assms])

lemma layout_collectNeighbors:
  assumes "layout G' = layout G"
  shows "collectNeighbors G' r ds acc = collectNeighbors G r ds acc"
  by (induction ds arbitrary: acc)
     (simp_all add: layout_getNode[OF assms] layoutD[OF assms] Let_def split: option.splits)

lemma layout_getNeighbors:
  assumes "layout G' = layout G" shows "getNeighbors G' r d = getNeighbors G r d"
  by (simp add: getNeighbors_def layout_collectNeighbors[OF assms])

lemma layout_heuristic:
  assumes "layout G' = layout G" shows "heuristic G' a b = heuristic G a b"
  by (simp add: heuristic_def layoutD[OF assms])

lemma layout_inBoundsRefs:
  assumes "layout G' = layout G" shows "inBoundsRefs G' = inBoundsRefs G"
  by (simp add: inBoundsRefs_def layoutD[OF assms])

lemma layout_wf_grid:
  assumes "layout G' = layout G" shows "wf_grid G' = wf_grid G"
  by (simp add: wf_grid_def layoutD[OF assms])

lemma layout_update_node:
  assumes "\<And>n. node_x (upd n) = node_x n" "\<And>n. node_y (upd n) = node_y n"
    "\<And>n. node_walkable (upd n) = node_walkable n"
  shows "layout (update_node G r upd) = layout G"
  using assms by (auto simp: layout_def update_node_def fun_eq_iff)

lemma layout_relax: "layout (relax G n c t e) = layout G"
  by (simp add: relax_def Let_def layout_update_node)

lemma layout_visitNeighbor:
  "visitNeighbor e c cl n (G, os) = (G', os') \<Longrightarrow> layout G' = layout G"
  by (auto simp: visitNeighbor_def Let_def layout_relax split: if_splits)

lemma layout_fold_visitNeighbor:
  "fold (visitNeighbor e c cl) ns (G, os) = (G', os') \<Longrightarrow> layout G' = layout G"
proof (induction ns arbitrary: G os)
  case Nil
  then show ?case by simp
next
  case (Cons n ns)
  obtain G1 os1 where v: "visitNeighbor e c cl n (G, os) = (G1, os1)"
    by (cases "visitNeighbor e c cl n (G, os)")
  with Cons.prems have "fold (visitNeighbor e c cl) ns (G1, os1) = (G', os')" by simp
  then have "layout G' = layout G1" by (rule Cons.IH)
  with layout_visitNeighbor[OF v] show ?case by simp
qed

lemma inBoundsRefs_iff: "(x, y) \<in> inBoundsRefs G \<longleftrightarrow> isInBounds G x y"
  by (auto simp: inBoundsRefs_def isInBounds_def)

lemma finite_inBoundsRefs: "finite (inBoundsRefs G)"
  by (simp add: inBoundsRefs_def)

lemma getNode_Some: "getNode G x y = Some r \<longleftrightarrow> r = (x, y) \<and> isWalkable G x y"
  by (auto simp: getNode_def)

lemma collectNeighbors_set:
  "n \<in> set (collectNeighbors G r ds acc) \<Longrightarrow> n \<in> set acc \<or> isWalkable G (fst n) (snd n)"
proof (induction ds arbitrary: acc)
  case Nil
  then show ?case by simp
next
  case (Cons dir ds)
  show ?case
  proof (cases "getNode G (node_x (nodes G r) + fst dir) (node_y (nodes G r) + snd dir)")
    case None
    with Cons.prems have "n \<in> set (collectNeighbors G r ds acc)" by (simp add: Let_def)
    then show ?thesis by (rule Cons.IH)
  next
    case (Some m)
    with Cons.prems have "n \<in> set (collectNeighbors G r ds (acc @ [m]))" by (simp add: Let_def)
    then have "n \<in> set (acc @ [m]) \<or> isWalkable G (fst n) (snd n)" by (rule Cons.IH)
    with Some show ?thesis by (auto simp: getNode_Some)
  qed
qed

lemma getNeighbors_walkable:
  "n \<in> set (getNeighbors G r d) \<Longrightarrow> isWalkable G (fst n) (snd n)"
  using collectNeighbors_set[of n G r "directions d" "[]"] by (simp add: getNeighbors_def)

lemma selectLowest_index:
  "currentIndex < length openSet \<Longrightarrow> current = openSet ! currentIndex \<Longrightarrow>
   selectLowest G openSet i current currentIndex = (c, k) \<Longrightarrow>
   k < length openSet \<and> c = openSet ! k"
proof (induction G openSet i current currentIndex rule: selectLowest.induct)
  case (1 G openSet i current currentIndex)
  show ?case
  proof (cases "i < length openSet")
    case True
    then show ?thesis using 1 by (auto simp: selectLowest.simps[of G openSet i] split: if_splits)
  next
    case False
    then show ?thesis using 1 by (auto simp: selectLowest.simps[of G openSet i])
  qed
qed

text \<open>What one visit does to the open set.\<close>

lemma visitNeighbor_open:
  "visitNeighbor e c cl n (G, os) = (G', os') \<Longrightarrow>
   os' = os \<or> (os' = os @ [n] \<and> n \<notin> cl \<and> n \<notin> set os)"
  by (auto simp: visitNeighbor_def Let_def split: if_splits)

lemma fold_visitNeighbor_open:
  "fold (visitNeighbor e c cl) ns (G, os) = (G', os') \<Longrightarrow>
   \<exists>new. os' = os @ new \<and> set new \<subseteq> set ns - cl - set os \<and> distinct new"
proof (induction ns arbitrary: G os)
  case Nil
  then show ?case by simp
next
  case (Cons n ns)
  obtain G1 os1 where v: "visitNeighbor e c cl n (G, os) = (G1, os1)"
    by (cases "visitNeighbor e c cl n (G, os)")
  with Cons.prems have "fold (visitNeighbor e c cl) ns (G1, os1) = (G', os')" by simp
  from Cons.IH[OF this] obtain new where
    new: "os' = os1 @ new" "set new \<subseteq> set ns - cl - set os1" "distinct new"
    by blast
  from visitNeighbor_open[OF v] show ?case
  proof
    assume "os1 = os"
    with new show ?thesis by auto
  next
    assume "os1 = os @ [n] \<and> n \<notin> cl \<and> n \<notin> set os"
    with new have "os' = os @ (n # new)" "set (n # new) \<subseteq> set (n # ns) - cl - set os"
      "distinct (n # new)" by auto
    then show ?thesis by blast
  qed
qed

lemma loopBody_unfold:
  assumes "selectLowest G os 1 (os ! 0) 0 = (c, k)"
  shows "loopBody G e d os cl =
    (if c = e then Found
     else case fold (visitNeighbor e c (insert c cl)) (getNeighbors G c d) (G, splice1 os k) of
            (G', os') \<Rightarrow> Expanded G' os' (insert c cl))"
  unfolding loopBody_def assms Let_def by simp


lemma loopBody_Expanded:
  assumes "loopBody G e d os cl = Expanded G' os' cl'" "os \<noteq> []"
  obtains k new where "k < length os" "os ! k \<noteq> e"
    "selectLowest G os 1 (os ! 0) 0 = (os ! k, k)"
    "cl' = insert (os ! k) cl"
    "fold (visitNeighbor e (os ! k) cl') (getNeighbors G (os ! k) d) (G, splice1 os k) = (G', os')"
    "os' = splice1 os k @ new"
    "set new \<subseteq> set (getNeighbors G (os ! k) d) - cl' - set (splice1 os k)"
    "distinct new" "layout G' = layout G"
proof -
  obtain c k where sel: "selectLowest G os 1 (os ! 0) 0 = (c, k)"
    by (cases "selectLowest G os 1 (os ! 0) 0")
  from assms(2) have "0 < length os" by simp
  from selectLowest_index[OF this refl sel] have k: "k < length os" "c = os ! k" by auto
  obtain G1 os1 where f:
    "fold (visitNeighbor e c (insert c cl)) (getNeighbors G c d) (G, splice1 os k) = (G1, os1)"
    by (cases "fold (visitNeighbor e c (insert c cl)) (getNeighbors G c d) (G, splice1 os k)")
  from assms(1) have ne: "c \<noteq> e"
    unfolding loopBody_unfold[OF sel] by (simp split: if_splits)
  with assms(1) have eq: "G' = G1" "os' = os1" "cl' = insert c cl"
    unfolding loopBody_unfold[OF sel] f by simp_all
  from fold_visitNeighbor_open[OF f] obtain new where
    new: "os1 = splice1 os k @ new"
      "set new \<subseteq> set (getNeighbors G c d) - insert c cl - set (splice1 os k)" "distinct new"
    by blast
  have lay: "layout G1 = layout G" by (rule layout_fold_visitNeighbor[OF f])
  show ?thesis
    using that[of k new] k ne sel f new lay unfolding eq by simp
qed

lemma filter_splice1_less:
  assumes "k < length xs" "P (xs ! k)"
  shows "length (filter P (splice1 xs k)) < length (filter P xs)"
proof -
  have "xs = take k xs @ xs ! k # drop (Suc k) xs"
    using assms(1) by (rule id_take_nth_drop)
  then have "filter P xs = filter P (take k xs) @ xs ! k # filter P (drop (Suc k) xs)"
    using assms(2) by (metis filter.simps(2) filter_append)
  then show ?thesis by (simp add: splice1_def)
qed

lemma loop_decreases:
  assumes "loopBody G e d os cl = Expanded G' os' cl'" "os \<noteq> []"
  shows "card (inBoundsRefs G' - cl') < card (inBoundsRefs G - cl) \<or>
         (card (inBoundsRefs G' - cl') = card (inBoundsRefs G - cl) \<and>
          length (filter (\<lambda>a. a \<in> cl' \<or> a \<notin> inBoundsRefs G') os') <
          length (filter (\<lambda>a. a \<in> cl \<or> a \<notin> inBoundsRefs G) os))"
proof -
  from assms obtain k new where k: "k < length os" and cl': "cl' = insert (os ! k) cl"
    and os': "os' = splice1 os k @ new"
    and new: "set new \<subseteq> set (getNeighbors G (os ! k) d) - cl' - set (splice1 os k)"
    and lay: "layout G' = layout G"
    by (rule loopBody_Expanded)
  let ?U = "inBoundsRefs G" and ?c = "os ! k"
  have U: "inBoundsRefs G' = ?U" by (rule layout_inBoundsRefs[OF lay])
  show ?thesis
  proof (cases "?c \<in> ?U - cl")
    case True
    have "?U - cl' = (?U - cl) - {?c}" using cl' by auto
    moreover have "card ((?U - cl) - {?c}) < card (?U - cl)"
      using True finite_inBoundsRefs[of G] by (intro card_Diff1_less) auto
    ultimately have "card (?U - cl') < card (?U - cl)" by simp
    then show ?thesis by (simp add: U)
  next
    case False
    then have P: "?c \<in> cl \<or> ?c \<notin> ?U" by blast
    have eq1: "?U - cl' = ?U - cl" using cl' False by auto
    have "\<And>a. a \<in> set new \<Longrightarrow> a \<notin> cl' \<and> a \<in> ?U"
    proof -
      fix a assume "a \<in> set new"
      with new have a: "a \<in> set (getNeighbors G ?c d)" "a \<notin> cl'" by auto
      from getNeighbors_walkable[OF a(1)] have "isInBounds G (fst a) (snd a)"
        by (simp add: isWalkable_def)
      then have "a \<in> ?U" using inBoundsRefs_iff[of "fst a" "snd a" G] by simp
      with a(2) show "a \<notin> cl' \<and> a \<in> ?U" by simp
    qed
    then have fn: "filter (\<lambda>a. a \<in> cl' \<or> a \<notin> ?U) new = []"
      by (auto simp: filter_empty_conv)
    have fs: "filter (\<lambda>a. a \<in> cl' \<or> a \<notin> ?U) (splice1 os k) =
              filter (\<lambda>a. a \<in> cl \<or> a \<notin> ?U) (splice1 os k)"
      using P cl' by (intro filter_cong) auto
    have "length (filter (\<lambda>a. a \<in> cl \<or> a \<notin> ?U) (splice1 os k)) <
          length (filter (\<lambda>a. a \<in> cl \<or> a \<notin> ?U) os)"
      using k P by (rule filter_splice1_less)
    then show ?thesis by (simp add: U eq1 os' fn fs)
  qed
qed


section \<open>Termination of the search loop\<close>

termination searchLoop
proof (relation loop_order)
  show "wf loop_order" by (simp add: loop_order_def)
next
  fix G endNode diagonal openSet closedSet G' openSet' closedSet'
  assume "openSet \<noteq> []"
    "loopBody G endNode diagonal openSet closedSet = Expanded G' openSet' closedSet'"
  from loop_decreases[OF this(2,1)]
  show "((G', endNode, diagonal, openSet', closedSet'), (G, endNode, diagonal, openSet, closedSet))
        \<in> loop_order"
    by (auto simp: loop_order_def)
qed


termination iterations
proof (relation loop_order)
  show "wf loop_order" by (simp add: loop_order_def)
next
  fix G endNode diagonal openSet closedSet G' openSet' closedSet'
  assume "openSet \<noteq> []"
    "loopBody G endNode diagonal openSet closedSet = Expanded G' openSet' closedSet'"
  from loop_decreases[OF this(2,1)]
  show "((G', endNode, diagonal, openSet', closedSet'), (G, endNode, diagonal, openSet, closedSet))
        \<in> loop_order"
    by (auto simp: loop_order_def)
qed


declare searchLoop.simps [simp del] iterations.simps [simp del]

section \<open>Neighbour enumeration and open-set selection\<close>

lemma collectNeighbors_eq:
  "collectNeighbors G node ds acc =
     acc @ map (\<lambda>dir. (node_x (nodes G node) + fst dir, node_y (nodes G node) + snd dir))
             (filter (\<lambda>dir. isWalkable G (node_x (nodes G node) + fst dir)
                                          (node_y (nodes G node) + snd dir)) ds)"
  by (induction ds arbitrary: acc) (simp_all add: Let_def getNode_def)

text \<open>
  C7. \<^verbatim>\<open>getNeighbors\<close> returns the cells one step from the given cell in the fixed order
  N, E, S, W (then NE, SE, SW, NW when \<open>diagonal\<close> is set), keeping exactly those that are in
  bounds and walkable: at most 4, respectively 8, cells.
\<close>

theorem getNeighbors_fixed_order:
  "getNeighbors G node diagonal =
     map (\<lambda>(dx, dy). (node_x (nodes G node) + dx, node_y (nodes G node) + dy))
       (filter (\<lambda>(dx, dy).
            isInBounds G (node_x (nodes G node) + dx) (node_y (nodes G node) + dy) \<and>
            node_walkable (nodes G (node_x (nodes G node) + dx, node_y (nodes G node) + dy)))
          (if diagonal
           then [(0, -1), (1, 0), (0, 1), (-1, 0), (1, -1), (1, 1), (-1, 1), (-1, -1)]
           else [(0, -1), (1, 0), (0, 1), (-1, 0)]))
   \<and> length (getNeighbors G node diagonal) \<le> (if diagonal then 8 else 4)"
proof -
  have eq: "getNeighbors G node diagonal =
     map (\<lambda>(dx, dy). (node_x (nodes G node) + dx, node_y (nodes G node) + dy))
       (filter (\<lambda>(dx, dy).
            isInBounds G (node_x (nodes G node) + dx) (node_y (nodes G node) + dy) \<and>
            node_walkable (nodes G (node_x (nodes G node) + dx, node_y (nodes G node) + dy)))
          (directions diagonal))"
    unfolding getNeighbors_def collectNeighbors_eq isWalkable_def
    by (simp add: case_prod_unfold)
  have len: "length (getNeighbors G node diagonal) \<le> length (directions diagonal)"
    unfolding eq by simp
  have dirs: "directions diagonal =
      (if diagonal
       then [(0, -1), (1, 0), (0, 1), (-1, 0), (1, -1), (1, 1), (-1, 1), (-1, -1)]
       else [(0, -1), (1, 0), (0, 1), (-1, 0)])"
    by (simp add: directions_def)
  from len have "length (getNeighbors G node diagonal) \<le> (if diagonal then 8 else 4)"
    by (simp add: directions_def split: if_splits)
  with eq dirs show ?thesis by simp
qed

lemma selectLowest_min:
  assumes "selectLowest G os i cur ci = (c, k)"
    and "ci < i" "i \<le> length os" "cur = os ! ci"
    and "\<forall>j<i. node_f (nodes G cur) \<le> node_f (nodes G (os ! j))"
    and "\<forall>j<ci. node_f (nodes G cur) < node_f (nodes G (os ! j))"
  shows "k < length os \<and> c = os ! k \<and>
         (\<forall>j<length os. node_f (nodes G c) \<le> node_f (nodes G (os ! j))) \<and>
         (\<forall>j<k. node_f (nodes G c) < node_f (nodes G (os ! j)))"
  using assms
proof (induction G os i cur ci rule: selectLowest.induct)
  case (1 G os i cur ci)
  show ?case
  proof (cases "i < length os")
    case False
    with "1.prems"(1) have ck: "c = cur" "k = ci"
      by (simp_all add: selectLowest.simps[of G os i])
    from False "1.prems"(3) have "i = length os" by simp
    with "1.prems"(2-6) show ?thesis unfolding ck by simp
  next
    case True
    show ?thesis
    proof (cases "node_f (nodes G (os ! i)) < node_f (nodes G cur)")
      case less: True
      with True "1.prems"(1) have sel: "selectLowest G os (i + 1) (os ! i) i = (c, k)"
        by (simp add: selectLowest.simps[of G os i])
      have a: "\<forall>j<i + 1. node_f (nodes G (os ! i)) \<le> node_f (nodes G (os ! j))"
      proof (intro allI impI)
        fix j assume "j < i + 1"
        then consider "j < i" | "j = i" by linarith
        then show "node_f (nodes G (os ! i)) \<le> node_f (nodes G (os ! j))"
          using less "1.prems"(5) by cases force+
      qed
      have b: "\<forall>j<i. node_f (nodes G (os ! i)) < node_f (nodes G (os ! j))"
        using less "1.prems"(5) by force
      from True have "i < i + 1" "i + 1 \<le> length os" by simp_all
      then show ?thesis by (rule "1.IH"(1)[OF True less sel _ _ refl a b])
    next
      case geq: False
      with True "1.prems"(1) have sel: "selectLowest G os (i + 1) cur ci = (c, k)"
        by (simp add: selectLowest.simps[of G os i])
      have a: "\<forall>j<i + 1. node_f (nodes G cur) \<le> node_f (nodes G (os ! j))"
      proof (intro allI impI)
        fix j assume "j < i + 1"
        then consider "j < i" | "j = i" by linarith
        then show "node_f (nodes G cur) \<le> node_f (nodes G (os ! j))"
          using geq "1.prems"(5) by cases force+
      qed
      from True "1.prems"(2) have "ci < i + 1" "i + 1 \<le> length os" by simp_all
      then show ?thesis by (rule "1.IH"(2)[OF True geq sel _ _ "1.prems"(4) a "1.prems"(6)])
    qed
  qed
qed

text \<open>
  C8. In a pass of the search loop the selected cell is at an index \<open>k\<close> of the open set
  whose \<open>f\<close> is minimal among all entries and strictly below the \<open>f\<close> of every entry at a
  lower index; when the pass does not return, exactly this cell is removed from the open set
  and added to the closed set.
\<close>

theorem loopBody_selects_first_lowest_f:
  assumes "openSet \<noteq> []"
  shows "\<exists>k<length openSet.
     selectLowest G openSet 1 (openSet ! 0) 0 = (openSet ! k, k) \<and>
     (\<forall>j<length openSet. node_f (nodes G (openSet ! k)) \<le> node_f (nodes G (openSet ! j))) \<and>
     (\<forall>j<k. node_f (nodes G (openSet ! k)) < node_f (nodes G (openSet ! j))) \<and>
     (case loopBody G endNode diagonal openSet closedSet of
        Found \<Rightarrow> openSet ! k = endNode
      | Expanded G' openSet' closedSet' \<Rightarrow>
          openSet ! k \<noteq> endNode \<and> closedSet' = insert (openSet ! k) closedSet \<and>
          take (length openSet - 1) openSet' = take k openSet @ drop (Suc k) openSet)"
proof -
  obtain c k where sel: "selectLowest G openSet 1 (openSet ! 0) 0 = (c, k)"
    by (cases "selectLowest G openSet 1 (openSet ! 0) 0")
  from assms have len: "1 \<le> length openSet" by (cases openSet) simp_all
  have m: "k < length openSet \<and> c = openSet ! k \<and>
         (\<forall>j<length openSet. node_f (nodes G c) \<le> node_f (nodes G (openSet ! j))) \<and>
         (\<forall>j<k. node_f (nodes G c) < node_f (nodes G (openSet ! j)))"
    by (rule selectLowest_min[OF sel _ len refl]) simp_all
  have body: "case loopBody G endNode diagonal openSet closedSet of
        Found \<Rightarrow> openSet ! k = endNode
      | Expanded G' openSet' closedSet' \<Rightarrow>
          openSet ! k \<noteq> endNode \<and> closedSet' = insert (openSet ! k) closedSet \<and>
          take (length openSet - 1) openSet' = take k openSet @ drop (Suc k) openSet"
  proof (cases "loopBody G endNode diagonal openSet closedSet")
    case Found
    then show ?thesis using m unfolding loopBody_unfold[OF sel] by (simp split: if_splits prod.splits)
  next
    case (Expanded G' os' cl')
    from this assms obtain k' new where k': "k' < length openSet"
      "openSet ! k' \<noteq> endNode"
      "selectLowest G openSet 1 (openSet ! 0) 0 = (openSet ! k', k')"
      "cl' = insert (openSet ! k') closedSet" "os' = splice1 openSet k' @ new"
      by (rule loopBody_Expanded)
    with sel have "k' = k" by simp
    moreover have "length (splice1 openSet k) = length openSet - 1"
      using m by (simp add: splice1_def)
    ultimately show ?thesis using k' Expanded by (simp add: splice1_def)
  qed
  from m sel body show ?thesis by blast
qed

theorem loopBody_selects_first_lowest_f_witness:
  "[(0, 0), (1, 0), (2, 0)] \<noteq> ([] :: ref list) \<and>
   (\<exists>k<length [(0, 0), (1, 0), (2, 0) :: ref].
      k = 1 \<and>
      selectLowest
        (update_node (update_node (update_node (Grid 3 1)
           (0, 0) (\<lambda>n. n\<lparr>node_f := 5\<rparr>)) (1, 0) (\<lambda>n. n\<lparr>node_f := 3\<rparr>))
           (2, 0) (\<lambda>n. n\<lparr>node_f := 3\<rparr>))
        [(0, 0), (1, 0), (2, 0)] 1 ([(0, 0), (1, 0), (2, 0)] ! 0) 0 =
        ([(0, 0), (1, 0), (2, 0)] ! k, k))"
proof -
  let ?G = "update_node (update_node (update_node (Grid 3 1)
           (0, 0) (\<lambda>n. n\<lparr>node_f := 5\<rparr>)) (1, 0) (\<lambda>n. n\<lparr>node_f := 3\<rparr>))
           (2, 0) (\<lambda>n. n\<lparr>node_f := 3\<rparr>)"
  let ?os = "[(0, 0), (1, 0), (2, 0)] :: ref list"
  have ev: "selectLowest ?G ?os 1 (?os ! 0) 0 = ((1, 0), 1)" by code_simp
  have ne: "?os \<noteq> []" by simp
  from loopBody_selects_first_lowest_f[OF ne, where G = ?G and endNode = "(2, 0)"
      and diagonal = False and closedSet = "{}"]
  obtain k where "k < length ?os" "selectLowest ?G ?os 1 (?os ! 0) 0 = (?os ! k, k)"
    by blast
  with ev have "k = 1" by simp
  with \<open>k < length ?os\<close> \<open>selectLowest ?G ?os 1 (?os ! 0) 0 = (?os ! k, k)\<close> ne
  show ?thesis by blast
qed

section \<open>The counting loops over all cells\<close>

lemma fold_row:
  "distinct xs \<Longrightarrow>
   fold (\<lambda>x ns. ns((x, y) := F x (ns (x, y)))) xs ns (a, b) =
     (if b = y \<and> a \<in> set xs then F a (ns (a, b)) else ns (a, b))"
  by (induction xs arbitrary: ns) auto

lemma fold_rows:
  "distinct xs \<Longrightarrow> distinct ys \<Longrightarrow>
   fold (\<lambda>y ns. fold (\<lambda>x ns. ns((x, y) := F x y (ns (x, y)))) xs ns) ys ns (a, b) =
     (if a \<in> set xs \<and> b \<in> set ys then F a b (ns (a, b)) else ns (a, b))"
proof (induction ys arbitrary: ns)
  case Nil
  then show ?case by simp
next
  case (Cons y ys)
  from Cons.prems have d: "distinct ys" "y \<notin> set ys" by simp_all
  let ?row = "fold (\<lambda>x ns. ns((x, y) := F x y (ns (x, y)))) xs ns"
  have row: "?row (a, b) = (if b = y \<and> a \<in> set xs then F a y (ns (a, b)) else ns (a, b))"
    by (rule fold_row[OF Cons.prems(1), where F = "\<lambda>x. F x y"])
  have "fold (\<lambda>y ns. fold (\<lambda>x ns. ns((x, y) := F x y (ns (x, y)))) xs ns) (y # ys) ns (a, b) =
        fold (\<lambda>y ns. fold (\<lambda>x ns. ns((x, y) := F x y (ns (x, y)))) xs ns) ys ?row (a, b)"
    by (simp only: fold_simps)
  also have "\<dots> = (if a \<in> set xs \<and> b \<in> set ys then F a b (?row (a, b)) else ?row (a, b))"
    by (rule Cons.IH[OF Cons.prems(1) d(1)])
  also have "\<dots> = (if a \<in> set xs \<and> b \<in> set (y # ys) then F a b (ns (a, b)) else ns (a, b))"
    unfolding row using d(2) by auto
  finally show ?case .
qed

lemma reset_nodes:
  "nodes (reset G) (x, y) =
     (if isInBounds G x y then resetNode (nodes G (x, y)) else nodes G (x, y))"
  unfolding reset_def
  using fold_rows[where F = "\<lambda>x y. resetNode" and xs = "[0..width G - 1]"
      and ys = "[0..height G - 1]" and ns = "nodes G" and a = x and b = y]
  by (auto simp: isInBounds_def)

lemma reset_dims: "width (reset G) = width G" "height (reset G) = height G"
  by (simp_all add: reset_def)

lemma layout_reset: "layout (reset G) = layout G"
  by (auto simp: layout_def reset_dims reset_nodes resetNode_def fun_eq_iff)

lemma Grid_nodes:
  "nodes (Grid w h) (x, y) =
     (if 0 \<le> x \<and> x < w \<and> 0 \<le> y \<and> y < h then Node x y True else Node 0 0 False)"
  unfolding Grid_def initializeGrid_def
  using fold_rows[where F = "\<lambda>x y n. Node x y True" and xs = "[0..w - 1]"
      and ys = "[0..h - 1]" and ns = "\<lambda>r. Node 0 0 False" and a = x and b = y]
  by auto

lemma Grid_dims: "width (Grid w h) = w" "height (Grid w h) = h"
  by (simp_all add: Grid_def)

lemma wf_grid_Grid: "wf_grid (Grid w h)"
  by (simp add: wf_grid_def Grid_dims Grid_nodes Node_def)

lemma wf_grid_setWalkable: "wf_grid (setWalkable G x y b) = wf_grid G"
  by (auto simp: wf_grid_def setWalkable_def update_node_def)

lemma isWalkable_Grid: "isWalkable (Grid w h) x y \<longleftrightarrow> 0 \<le> x \<and> x < w \<and> 0 \<le> y \<and> y < h"
  by (simp add: isWalkable_def isInBounds_def Grid_dims Grid_nodes Node_def)

lemma update_node_same: "upd (nodes G r) = nodes G r \<Longrightarrow> update_node G r upd = G"
  by (simp add: update_node_def)

lemma update_node_nodes:
  "nodes (update_node G r upd) q = (if q = r then upd (nodes G r) else nodes G q)"
  by (simp add: update_node_def)

lemma update_node_dims:
  "width (update_node G r upd) = width G" "height (update_node G r upd) = height G"
  by (simp_all add: update_node_def)

lemma layout_initStart: "layout (initStart G s e) = layout G"
  by (simp add: initStart_def Let_def layout_update_node)

lemma relax_nodes:
  "nodes (relax G n c t e) r =
     (if r = n
      then (nodes G n)\<lparr>node_parent := Some c, node_g := t, node_h := heuristic G n e,
             node_f := t + heuristic G n e\<rparr>
      else nodes G r)"
proof -
  have "heuristic (update_node (update_node G n (\<lambda>n. n\<lparr>node_parent := Some c\<rparr>)) n
           (\<lambda>n. n\<lparr>node_g := t\<rparr>)) n e = heuristic G n e"
    by (intro layout_heuristic) (simp add: layout_update_node)
  then show ?thesis
    by (simp add: relax_def Let_def update_node_nodes)
qed

lemma initStart_nodes:
  "nodes (initStart G s e) r =
     (if r = s
      then (nodes G s)\<lparr>node_g := 0, node_h := heuristic G s e, node_f := heuristic G s e\<rparr>
      else nodes G r)"
proof -
  have "heuristic (update_node G s (\<lambda>n. n\<lparr>node_g := 0\<rparr>)) s e = heuristic G s e"
    by (intro layout_heuristic) (simp add: layout_update_node)
  then show ?thesis
    by (simp add: initStart_def Let_def update_node_nodes)
qed

section \<open>What a call leaves unchanged\<close>

lemma visitNeighbor_nodes:
  "visitNeighbor e c cl n (G, os) = (G', os') \<Longrightarrow> r \<noteq> n \<or> r \<in> cl \<Longrightarrow>
   nodes G' r = nodes G r"
  by (auto simp: visitNeighbor_def Let_def relax_nodes split: if_splits)

lemma fold_visitNeighbor_nodes:
  "fold (visitNeighbor e c cl) ns (G, os) = (G', os') \<Longrightarrow> r \<notin> set ns \<or> r \<in> cl \<Longrightarrow>
   nodes G' r = nodes G r"
proof (induction ns arbitrary: G os)
  case Nil
  then show ?case by simp
next
  case (Cons n ns)
  obtain G1 os1 where v: "visitNeighbor e c cl n (G, os) = (G1, os1)"
    by (cases "visitNeighbor e c cl n (G, os)")
  with Cons.prems have "fold (visitNeighbor e c cl) ns (G1, os1) = (G', os')" by simp
  moreover from Cons.prems(2) have "r \<notin> set ns \<or> r \<in> cl" by auto
  ultimately have "nodes G' r = nodes G1 r" by (rule Cons.IH)
  moreover from Cons.prems(2) have "r \<noteq> n \<or> r \<in> cl" by auto
  with v have "nodes G1 r = nodes G r" by (rule visitNeighbor_nodes)
  ultimately show ?case by simp
qed

lemma walkable_inBoundsRefs: "isWalkable G (fst r) (snd r) \<Longrightarrow> r \<in> inBoundsRefs G"
  using inBoundsRefs_iff[of "fst r" "snd r" G] by (simp add: isWalkable_def)

lemma loopBody_outside:
  assumes "loopBody G e d os cl = Expanded G' os' cl'" "os \<noteq> []" "r \<notin> inBoundsRefs G"
  shows "nodes G' r = nodes G r"
proof -
  from assms(1,2) obtain k new where
    f: "fold (visitNeighbor e (os ! k) cl') (getNeighbors G (os ! k) d) (G, splice1 os k) = (G', os')"
    by (rule loopBody_Expanded)
  have "r \<notin> set (getNeighbors G (os ! k) d)"
    using assms(3) getNeighbors_walkable walkable_inBoundsRefs by blast
  then show ?thesis using fold_visitNeighbor_nodes[OF f] by simp
qed

lemma searchLoop_Nil: "searchLoop G e d [] cl = Some ([], G)"
  by (simp add: searchLoop.simps)

lemma searchLoop_Found:
  "os \<noteq> [] \<Longrightarrow> loopBody G e d os cl = Found \<Longrightarrow>
   searchLoop G e d os cl = map_option (\<lambda>path. (path, G)) (reconstructPath G e)"
  by (simp add: searchLoop.simps[of G e d os cl])

lemma searchLoop_Expanded:
  "os \<noteq> [] \<Longrightarrow> loopBody G e d os cl = Expanded G' os' cl' \<Longrightarrow>
   searchLoop G e d os cl = searchLoop G' e d os' cl'"
  by (simp add: searchLoop.simps[of G e d os cl])

lemma iterations_Nil: "iterations G e d [] cl = 0"
  by (simp add: iterations.simps)

lemma iterations_Found:
  "os \<noteq> [] \<Longrightarrow> loopBody G e d os cl = Found \<Longrightarrow> iterations G e d os cl = 1"
  by (simp add: iterations.simps[of G e d os cl])

lemma iterations_Expanded:
  "os \<noteq> [] \<Longrightarrow> loopBody G e d os cl = Expanded G' os' cl' \<Longrightarrow>
   iterations G e d os cl = 1 + iterations G' e d os' cl'"
  by (simp add: iterations.simps[of G e d os cl])

lemma searchLoop_frame:
  "searchLoop G e d os cl = Some (p, G') \<Longrightarrow>
   layout G' = layout G \<and> (\<forall>r. r \<notin> inBoundsRefs G \<longrightarrow> nodes G' r = nodes G r)"
proof (induction G e d os cl rule: searchLoop.induct)
  case (1 G e d os cl)
  show ?case
  proof (cases "os = []")
    case True
    with "1.prems" show ?thesis by (simp add: searchLoop_Nil)
  next
    case False
    show ?thesis
    proof (cases "loopBody G e d os cl")
      case Found
      with False "1.prems" show ?thesis by (auto simp: searchLoop_Found)
    next
      case (Expanded G1 os1 cl1)
      with False "1.prems" have "searchLoop G1 e d os1 cl1 = Some (p, G')"
        by (simp add: searchLoop_Expanded)
      from "1.IH"[OF False Expanded this]
      have IH: "layout G' = layout G1" "\<And>r. r \<notin> inBoundsRefs G1 \<Longrightarrow> nodes G' r = nodes G1 r"
        by blast+
      from Expanded False obtain k new where lay: "layout G1 = layout G"
        by (rule loopBody_Expanded)
      have "nodes G' r = nodes G r" if "r \<notin> inBoundsRefs G" for r
        using that IH(2)[of r] loopBody_outside[OF Expanded False that]
          layout_inBoundsRefs[OF lay] by simp
      with IH(1) lay show ?thesis by simp
    qed
  qed
qed

lemma findPath_frame:
  assumes "findPath G sx sy ex ey d = Some (p, G')"
  shows "layout G' = layout G"
    and "\<And>r. r \<notin> inBoundsRefs G \<Longrightarrow> nodes G' r = nodes G r"
proof -
  let ?R = "reset G"
  have R: "layout ?R = layout G" by (rule layout_reset)
  have Rout: "nodes ?R r = nodes G r" if "r \<notin> inBoundsRefs G" for r
    using that inBoundsRefs_iff[of "fst r" "snd r" G] reset_nodes[of G "fst r" "snd r"] by simp
  have "layout G' = layout G \<and> (\<forall>r. r \<notin> inBoundsRefs G \<longrightarrow> nodes G' r = nodes G r)"
  proof (cases "getNode ?R sx sy")
    case None
    with assms have "G' = ?R" by (simp add: findPath_def Let_def)
    with R Rout show ?thesis by simp
  next
    case s: (Some s)
    show ?thesis
    proof (cases "getNode ?R ex ey")
      case None
      with s assms have "G' = ?R" by (simp add: findPath_def Let_def)
      with R Rout show ?thesis by simp
    next
      case e: (Some e)
      with s assms have L: "searchLoop (initStart ?R s e) e d [s] {} = Some (p, G')"
        by (simp add: findPath_def Let_def)
      have I: "layout (initStart ?R s e) = layout G"
        using layout_initStart[of ?R s e] R by simp
      from s have "isWalkable ?R (fst s) (snd s)" by (auto simp: getNode_Some)
      then have sin: "s \<in> inBoundsRefs G"
        using walkable_inBoundsRefs layout_inBoundsRefs[OF R] by blast
      have Iout: "nodes (initStart ?R s e) r = nodes G r" if "r \<notin> inBoundsRefs G" for r
        using that sin Rout[OF that] by (auto simp: initStart_nodes)
      from searchLoop_frame[OF L] I Iout layout_inBoundsRefs[OF I] show ?thesis by simp
    qed
  qed
  then show "layout G' = layout G" and "\<And>r. r \<notin> inBoundsRefs G \<Longrightarrow> nodes G' r = nodes G r"
    by blast+
qed

lemma reset_cong:
  assumes "layout G' = layout G" "\<And>r. r \<notin> inBoundsRefs G \<Longrightarrow> nodes G' r = nodes G r"
  shows "reset G' = reset (G :: grid)"
proof (rule grid.equality)
  show "width (reset G') = width (reset G)" "height (reset G') = height (reset G)"
    by (simp_all add: reset_dims layoutD[OF assms(1)])
  show "nodes (reset G') = nodes (reset G)"
  proof
    fix r :: ref
    obtain x y where r: "r = (x, y)" by (cases r)
    show "nodes (reset G') r = nodes (reset G) r"
    proof (cases "isInBounds G x y")
      case True
      have "resetNode (nodes G' r) = resetNode (nodes G r)"
        using layoutD(3-5)[OF assms(1), of r] by (simp add: resetNode_def node.equality)
      with True show ?thesis
        by (simp add: r reset_nodes layout_isInBounds[OF assms(1)])
    next
      case False
      then have "r \<notin> inBoundsRefs G" by (simp add: r inBoundsRefs_iff)
      from assms(2)[OF this] False show ?thesis
        by (simp add: r reset_nodes layout_isInBounds[OF assms(1)])
    qed
  qed
  show "grid.more (reset G') = grid.more (reset G)" by simp
qed

lemma findPath_reset: "reset G' = reset G \<Longrightarrow> findPath G' sx sy ex ey d = findPath G sx sy ex ey d"
  by (simp add: findPath_def)

section \<open>The search invariant\<close>

lemma search_inv_init:
  assumes "isWalkable G (fst s) (snd s)" "node_parent (nodes G s) = None"
  shows "search_inv (initStart G s e) s d [s] {}"
  using assms
  by (simp add: search_inv_def initStart_nodes layout_isWalkable[OF layout_initStart])

lemma search_invD:
  assumes "search_inv G s d os cl"
  shows "distinct os" "set os \<inter> cl = {}"
    "\<And>r. r \<in> set os \<union> cl \<Longrightarrow> isWalkable G (fst r) (snd r)"
    "\<And>r. r \<in> set os \<union> cl \<Longrightarrow> 0 \<le> node_g (nodes G r)"
    "s \<in> cl \<or> (os = [s] \<and> cl = {})"
    "node_parent (nodes G s) = None" "node_g (nodes G s) = 0"
    "\<And>r. r \<in> set os \<union> cl \<Longrightarrow> r \<noteq> s \<Longrightarrow>
       \<exists>p\<in>cl. node_parent (nodes G r) = Some p \<and>
          node_g (nodes G r) = node_g (nodes G p) + 1 \<and> r \<in> set (getNeighbors G p d)"
  using assms unfolding search_inv_def by blast+

lemma set_splice1:
  assumes d: "distinct xs" and k: "k < length xs"
  shows "set (splice1 xs k) = set xs - {xs ! k}"
proof -
  define ys where "ys = take k xs @ xs ! k # drop (Suc k) xs"
  have eq: "xs = ys" unfolding ys_def using k by (rule id_take_nth_drop)
  from d have "distinct ys" by (simp only: eq)
  then have "xs ! k \<notin> set (take k xs) \<union> set (drop (Suc k) xs)"
    unfolding ys_def by auto
  moreover have "set ys = set (take k xs) \<union> {xs ! k} \<union> set (drop (Suc k) xs)"
    unfolding ys_def by auto
  then have "set xs = set (take k xs) \<union> {xs ! k} \<union> set (drop (Suc k) xs)"
    by (simp only: eq)
  ultimately show ?thesis unfolding splice1_def by auto
qed

lemma distinct_splice1: "distinct xs \<Longrightarrow> distinct (splice1 xs k)"
  by (simp add: splice1_def set_take_disj_set_drop_if_distinct)

lemma search_inv_pop:
  assumes inv: "search_inv G s d os cl" and k: "k < length os"
  shows "search_inv G s d (splice1 os k) (insert (os ! k) cl)"
proof -
  note D = search_invD[OF inv]
  from D(1) have dist: "distinct os" .
  have S: "set (splice1 os k) = set os - {os ! k}" by (rule set_splice1[OF dist k])
  have mem: "os ! k \<in> set os" using k by (rule nth_mem)
  have U: "set (splice1 os k) \<union> insert (os ! k) cl = set os \<union> cl"
    unfolding S using mem by blast
  have start: "s \<in> insert (os ! k) cl \<or> (splice1 os k = [s] \<and> insert (os ! k) cl = {})"
  proof (cases "s \<in> cl")
    case True
    then show ?thesis by simp
  next
    case False
    with D(5) have "os = [s]" by blast
    with k show ?thesis by (simp add: splice1_def)
  qed
  show ?thesis
    unfolding search_inv_def U
  proof (intro conjI)
    show "distinct (splice1 os k)" by (rule distinct_splice1[OF dist])
    show "set (splice1 os k) \<inter> insert (os ! k) cl = {}"
      using S D(2) by auto
    show "\<forall>r\<in>set os \<union> cl. isWalkable G (fst r) (snd r) \<and> 0 \<le> node_g (nodes G r)"
      using D(3,4) by blast
    show "s \<in> insert (os ! k) cl \<or> (splice1 os k = [s] \<and> insert (os ! k) cl = {})"
      by (rule start)
    show "node_parent (nodes G s) = None" "node_g (nodes G s) = 0"
      by (rule D(6), rule D(7))
    show "\<forall>r\<in>set os \<union> cl. r \<noteq> s \<longrightarrow>
       (\<exists>p\<in>insert (os ! k) cl. node_parent (nodes G r) = Some p \<and>
          node_g (nodes G r) = node_g (nodes G p) + 1 \<and> r \<in> set (getNeighbors G p d))"
    proof (intro ballI impI)
      fix r assume "r \<in> set os \<union> cl" "r \<noteq> s"
      from D(8)[OF this] obtain p where "p \<in> cl" "node_parent (nodes G r) = Some p"
        "node_g (nodes G r) = node_g (nodes G p) + 1" "r \<in> set (getNeighbors G p d)"
        by blast
      then show "\<exists>p\<in>insert (os ! k) cl. node_parent (nodes G r) = Some p \<and>
          node_g (nodes G r) = node_g (nodes G p) + 1 \<and> r \<in> set (getNeighbors G p d)"
        by blast
    qed
  qed
qed

lemma search_inv_relax:
  assumes inv: "search_inv G s d os cl" and c: "c \<in> cl"
    and n: "n \<in> set (getNeighbors G c d)" "n \<notin> cl"
    and os': "set os' = insert n (set os)" "distinct os'"
  shows "search_inv (relax G n c (node_g (nodes G c) + 1) e) s d os' cl"
proof -
  let ?G = "relax G n c (node_g (nodes G c) + 1) e"
  have lay: "layout ?G = layout G" by (rule layout_relax)
  note D = search_invD[OF inv]
  from D(5) c have s: "s \<in> cl" by blast
  with n(2) c have ne: "n \<noteq> s" "n \<noteq> c" by auto
  have other: "nodes ?G r = nodes G r" if "r \<noteq> n" for r
    using that by (simp add: relax_nodes)
  have cl_same: "nodes ?G r = nodes G r" if "r \<in> cl" for r
  proof -
    from that n(2) have "r \<noteq> n" by auto
    then show ?thesis by (rule other)
  qed
  have new: "node_parent (nodes ?G n) = Some c" "node_g (nodes ?G n) = node_g (nodes G c) + 1"
    by (simp_all add: relax_nodes)
  from D(4)[of c] c have gc: "0 \<le> node_g (nodes G c)" by simp
  show ?thesis
    unfolding search_inv_def os'(1)
  proof (intro conjI)
    show "distinct os'" by (rule os'(2))
    show "insert n (set os) \<inter> cl = {}" using D(2) n(2) by auto
    show "\<forall>r\<in>insert n (set os) \<union> cl. isWalkable ?G (fst r) (snd r) \<and> 0 \<le> node_g (nodes ?G r)"
    proof
      fix r assume r: "r \<in> insert n (set os) \<union> cl"
      show "isWalkable ?G (fst r) (snd r) \<and> 0 \<le> node_g (nodes ?G r)"
      proof (cases "r = n")
        case True
        with getNeighbors_walkable[OF n(1)] new(2) gc show ?thesis
          by (simp add: layout_isWalkable[OF lay])
      next
        case False
        with r have "r \<in> set os \<union> cl" by simp
        with D(3,4) have "isWalkable G (fst r) (snd r) \<and> 0 \<le> node_g (nodes G r)"
          by blast
        with False show ?thesis by (simp add: layout_isWalkable[OF lay] other)
      qed
    qed
    show "s \<in> cl \<or> (os' = [s] \<and> cl = {})" using s by simp
    show "node_parent (nodes ?G s) = None" "node_g (nodes ?G s) = 0"
      using D(6,7) by (simp_all add: cl_same[OF s])
    show "\<forall>r\<in>insert n (set os) \<union> cl. r \<noteq> s \<longrightarrow>
       (\<exists>p\<in>cl. node_parent (nodes ?G r) = Some p \<and>
          node_g (nodes ?G r) = node_g (nodes ?G p) + 1 \<and> r \<in> set (getNeighbors ?G p d))"
    proof (intro ballI impI)
      fix r assume r: "r \<in> insert n (set os) \<union> cl" "r \<noteq> s"
      show "\<exists>p\<in>cl. node_parent (nodes ?G r) = Some p \<and>
          node_g (nodes ?G r) = node_g (nodes ?G p) + 1 \<and> r \<in> set (getNeighbors ?G p d)"
      proof (cases "r = n")
        case True
        have "node_parent (nodes ?G r) = Some c \<and>
          node_g (nodes ?G r) = node_g (nodes ?G c) + 1 \<and> r \<in> set (getNeighbors ?G c d)"
          using True new n(1) by (simp add: cl_same[OF c] layout_getNeighbors[OF lay])
        with c show ?thesis by blast
      next
        case False
        with r have "r \<in> set os \<union> cl" by simp
        from D(8)[OF this r(2)] obtain p where p: "p \<in> cl" "node_parent (nodes G r) = Some p"
          "node_g (nodes G r) = node_g (nodes G p) + 1" "r \<in> set (getNeighbors G p d)"
          by blast
        then have "node_parent (nodes ?G r) = Some p \<and>
          node_g (nodes ?G r) = node_g (nodes ?G p) + 1 \<and> r \<in> set (getNeighbors ?G p d)"
          using False by (simp add: other cl_same layout_getNeighbors[OF lay])
        with p(1) show ?thesis by blast
      qed
    qed
  qed
qed

lemma search_inv_visit:
  assumes inv: "search_inv G s d os cl" and c: "c \<in> cl"
    and n: "n \<in> set (getNeighbors G c d)"
    and v: "visitNeighbor e c cl n (G, os) = (G', os')"
  shows "search_inv G' s d os' cl"
proof -
  from search_invD(1)[OF inv] have dist: "distinct os" .
  consider (same) "G' = G" "os' = os"
    | (push) "n \<notin> cl" "n \<notin> set os" "G' = relax G n c (node_g (nodes G c) + 1) e" "os' = os @ [n]"
    | (better) "n \<notin> cl" "n \<in> set os" "G' = relax G n c (node_g (nodes G c) + 1) e" "os' = os"
    using v by (auto simp: visitNeighbor_def Let_def split: if_splits)
  then show ?thesis
  proof cases
    case same
    with inv show ?thesis by simp
  next
    case push
    have "set os' = insert n (set os)" "distinct os'" using push dist by simp_all
    from search_inv_relax[OF inv c n push(1) this] push(3) show ?thesis by simp
  next
    case better
    have "set os' = insert n (set os)" "distinct os'" using better dist by auto
    from search_inv_relax[OF inv c n better(1) this] better(3) show ?thesis by simp
  qed
qed

lemma search_inv_fold:
  assumes "search_inv G s d os cl" "c \<in> cl" "set ns \<subseteq> set (getNeighbors G c d)"
    "fold (visitNeighbor e c cl) ns (G, os) = (G', os')"
  shows "search_inv G' s d os' cl"
  using assms
proof (induction ns arbitrary: G os)
  case Nil
  then show ?case by simp
next
  case (Cons n ns)
  obtain G1 os1 where v: "visitNeighbor e c cl n (G, os) = (G1, os1)"
    by (cases "visitNeighbor e c cl n (G, os)")
  from Cons.prems(3) have n: "n \<in> set (getNeighbors G c d)" by simp
  have inv1: "search_inv G1 s d os1 cl"
    by (rule search_inv_visit[OF Cons.prems(1,2) n v])
  have "getNeighbors G1 c d = getNeighbors G c d"
    by (rule layout_getNeighbors[OF layout_visitNeighbor[OF v]])
  with Cons.prems(3) have sub: "set ns \<subseteq> set (getNeighbors G1 c d)" by simp
  from Cons.prems(4) v have "fold (visitNeighbor e c cl) ns (G1, os1) = (G', os')" by simp
  from Cons.IH[OF inv1 Cons.prems(2) sub this] show ?case .
qed

lemma search_inv_step:
  assumes inv: "search_inv G s d os cl" and "os \<noteq> []"
    and "loopBody G e d os cl = Expanded G' os' cl'"
  shows "search_inv G' s d os' cl'"
proof -
  from assms(3,2) obtain k new where k: "k < length os"
    and cl': "cl' = insert (os ! k) cl"
    and f: "fold (visitNeighbor e (os ! k) cl') (getNeighbors G (os ! k) d) (G, splice1 os k) = (G', os')"
    by (rule loopBody_Expanded)
  have "search_inv G s d (splice1 os k) cl'"
    unfolding cl' by (rule search_inv_pop[OF inv k])
  moreover have "os ! k \<in> cl'" by (simp add: cl')
  ultimately show ?thesis using _ f by (rule search_inv_fold) simp
qed

section \<open>Path reconstruction\<close>

lemma reconstructLoop_None: "reconstructLoop G None path = Some path"
  by (subst reconstructLoop.simps) simp

lemma reconstructLoop_Some:
  "reconstructLoop G (Some c) path =
     reconstructLoop G (node_parent (nodes G c)) (coordOf G c # path)"
  by (subst reconstructLoop.simps) (simp add: coordOf_def)

lemma reconstruct_chain:
  assumes inv: "search_inv G s d os cl"
  shows "r \<in> set os \<union> cl \<Longrightarrow>
    \<exists>q. reconstructLoop G (Some r) acc = Some (map (coordOf G) q @ acc) \<and>
        q \<noteq> [] \<and> hd q = s \<and> last q = r \<and> set q \<subseteq> insert r cl \<and>
        successively (\<lambda>a b. b \<in> set (getNeighbors G a d)) q \<and>
        int (length q) = node_g (nodes G r) + 1"
proof (induction "nat (node_g (nodes G r))" arbitrary: r acc rule: less_induct)
  case less
  note D = search_invD[OF inv]
  show ?case
  proof (cases "r = s")
    case True
    have "reconstructLoop G (Some s) acc = Some (map (coordOf G) [s] @ acc)"
      by (simp add: reconstructLoop_Some D(6) reconstructLoop_None)
    with True D(7) show ?thesis
      by (intro exI[of _ "[s]"]) simp
  next
    case False
    from D(8)[OF less.prems False] obtain p where p: "p \<in> cl"
      "node_parent (nodes G r) = Some p" "node_g (nodes G r) = node_g (nodes G p) + 1"
      "r \<in> set (getNeighbors G p d)"
      by blast
    from D(4)[of p] p(1) have "0 \<le> node_g (nodes G p)" by simp
    with p(3) have lt: "nat (node_g (nodes G p)) < nat (node_g (nodes G r))" by simp
    from p(1) have pin: "p \<in> set os \<union> cl" by simp
    from less.hyps[OF lt pin, of "coordOf G r # acc"] obtain q where q:
      "reconstructLoop G (Some p) (coordOf G r # acc) = Some (map (coordOf G) q @ coordOf G r # acc)"
      "q \<noteq> []" "hd q = s" "last q = p" "set q \<subseteq> insert p cl"
      "successively (\<lambda>a b. b \<in> set (getNeighbors G a d)) q"
      "int (length q) = node_g (nodes G p) + 1"
      by blast
    have 1: "reconstructLoop G (Some r) acc = Some (map (coordOf G) (q @ [r]) @ acc)"
      using q(1) p(2) by (simp add: reconstructLoop_Some[of G r])
    have 2: "successively (\<lambda>a b. b \<in> set (getNeighbors G a d)) (q @ [r])"
      using q(2,4,6) p(4) by (simp add: successively_append_iff)
    have 3: "set (q @ [r]) \<subseteq> insert r cl" using q(5) p(1) by auto
    have 4: "int (length (q @ [r])) = node_g (nodes G r) + 1" using q(7) p(3) by simp
    have 5: "q @ [r] \<noteq> []" "hd (q @ [r]) = s" "last (q @ [r]) = r" using q(2,3) by simp_all
    from 1 2 3 4 5 show ?thesis by blast
  qed
qed

lemma loopBody_Found:
  assumes "loopBody G e d os cl = Found" "os \<noteq> []"
  shows "e \<in> set os"
proof -
  obtain c k where sel: "selectLowest G os 1 (os ! 0) 0 = (c, k)"
    by (cases "selectLowest G os 1 (os ! 0) 0")
  from assms(2) have "0 < length os" by simp
  from selectLowest_index[OF this refl sel] have k: "k < length os" "c = os ! k" by auto
  from assms(1) have "c = e"
    unfolding loopBody_unfold[OF sel] by (simp split: if_splits prod.splits)
  with k show ?thesis by auto
qed

lemma searchLoop_total:
  "search_inv G s d os cl \<Longrightarrow> \<exists>p G'. searchLoop G e d os cl = Some (p, G')"
proof (induction G e d os cl rule: searchLoop.induct)
  case (1 G e d os cl)
  show ?case
  proof (cases "os = []")
    case True
    then show ?thesis by (simp add: searchLoop_Nil)
  next
    case False
    show ?thesis
    proof (cases "loopBody G e d os cl")
      case Found
      from loopBody_Found[OF Found False] have "e \<in> set os \<union> cl" by simp
      from reconstruct_chain[OF "1.prems" this, of "[]"] obtain q where
        "reconstructLoop G (Some e) [] = Some (map (coordOf G) q @ [])" by blast
      then show ?thesis by (simp add: searchLoop_Found[OF False Found] reconstructPath_def)
    next
      case (Expanded G1 os1 cl1)
      have "search_inv G1 s d os1 cl1" by (rule search_inv_step[OF "1.prems" False Expanded])
      from "1.IH"[OF False Expanded this] show ?thesis
        by (simp add: searchLoop_Expanded[OF False Expanded])
    qed
  qed
qed

lemma searchLoop_path:
  "search_inv G s d os cl \<Longrightarrow> searchLoop G e d os cl = Some (p, G') \<Longrightarrow> p \<noteq> [] \<Longrightarrow>
   \<exists>q. p = map (coordOf G') q \<and> q \<noteq> [] \<and> hd q = s \<and> last q = e \<and>
       (\<forall>r\<in>set q. isWalkable G' (fst r) (snd r)) \<and>
       successively (\<lambda>a b. b \<in> set (getNeighbors G' a d)) q \<and>
       int (length q) = node_g (nodes G' e) + 1"
proof (induction G e d os cl rule: searchLoop.induct)
  case (1 G e d os cl)
  show ?case
  proof (cases "os = []")
    case True
    with "1.prems" show ?thesis by (simp add: searchLoop_Nil)
  next
    case False
    show ?thesis
    proof (cases "loopBody G e d os cl")
      case Found
      note D = search_invD[OF "1.prems"(1)]
      from loopBody_Found[OF Found False] have ein: "e \<in> set os \<union> cl" by simp
      from reconstruct_chain[OF "1.prems"(1) this, of "[]"] obtain q where q:
        "reconstructLoop G (Some e) [] = Some (map (coordOf G) q @ [])"
        "q \<noteq> []" "hd q = s" "last q = e" "set q \<subseteq> insert e cl"
        "successively (\<lambda>a b. b \<in> set (getNeighbors G a d)) q"
        "int (length q) = node_g (nodes G e) + 1"
        by blast
      from "1.prems"(2) q(1) have eq: "p = map (coordOf G) q" "G' = G"
        by (auto simp: searchLoop_Found[OF False Found] reconstructPath_def)
      have "\<forall>r\<in>set q. isWalkable G (fst r) (snd r)"
        using q(5) ein D(3) by blast
      with q eq show ?thesis by blast
    next
      case (Expanded G1 os1 cl1)
      have inv: "search_inv G1 s d os1 cl1" by (rule search_inv_step[OF "1.prems"(1) False Expanded])
      from "1.prems"(2) have "searchLoop G1 e d os1 cl1 = Some (p, G')"
        by (simp add: searchLoop_Expanded[OF False Expanded])
      from "1.IH"[OF False Expanded inv this "1.prems"(3)] show ?thesis .
    qed
  qed
qed

lemma wf_coordOf:
  assumes "wf_grid G" "isWalkable G (fst r) (snd r)"
  shows "coordOf G r = r"
proof -
  from assms(2) have "fst r \<in> {0..<width G}" "snd r \<in> {0..<height G}"
    by (simp_all add: isWalkable_def isInBounds_def)
  with assms(1) have "node_x (nodes G (fst r, snd r)) = fst r \<and> node_y (nodes G (fst r, snd r)) = snd r"
    unfolding wf_grid_def by blast
  then show ?thesis by (simp add: coordOf_def prod_eq_iff)
qed

lemma getNeighbors_step:
  assumes "b \<in> set (getNeighbors G a d)"
  shows "\<exists>dir\<in>set (directions d). b = (fst (coordOf G a) + fst dir, snd (coordOf G a) + snd dir)"
  using assms unfolding getNeighbors_def collectNeighbors_eq coordOf_def by auto

lemma wf_getNeighbors_step_ok:
  assumes "wf_grid G" "isWalkable G (fst a) (snd a)" "b \<in> set (getNeighbors G a d)"
  shows "step_ok d a b"
proof -
  from getNeighbors_step[OF assms(3)] obtain dir where
    "dir \<in> set (directions d)" "b = (fst (coordOf G a) + fst dir, snd (coordOf G a) + snd dir)"
    by blast
  then show ?thesis
    unfolding wf_coordOf[OF assms(1,2)] step_ok_def by simp
qed

lemma successively_weaken:
  "successively P q \<Longrightarrow> (\<And>a b. a \<in> set q \<Longrightarrow> P a b \<Longrightarrow> Q a b) \<Longrightarrow> successively Q q"
proof (induction q)
  case Nil
  then show ?case by simp
next
  case (Cons x q)
  then show ?case by (cases q) auto
qed

section \<open>The whole call\<close>

lemma isWalkable_reset: "isWalkable (reset G) x y = isWalkable G x y"
  by (rule layout_isWalkable[OF layout_reset])

lemma getNode_reset: "getNode (reset G) x y = getNode G x y"
  by (rule layout_getNode[OF layout_reset])

lemma findPath_invalid:
  "\<not> isWalkable G sx sy \<or> \<not> isWalkable G ex ey \<Longrightarrow>
   findPath G sx sy ex ey d = Some ([], reset G)"
  by (auto simp: findPath_def Let_def getNode_def isWalkable_reset)

lemma findPath_search:
  "isWalkable G sx sy \<Longrightarrow> isWalkable G ex ey \<Longrightarrow>
   findPath G sx sy ex ey d =
     searchLoop (initStart (reset G) (sx, sy) (ex, ey)) (ex, ey) d [(sx, sy)] {}"
  by (simp add: findPath_def Let_def getNode_def isWalkable_reset)

lemma findPath_iterations_invalid:
  "\<not> isWalkable G sx sy \<or> \<not> isWalkable G ex ey \<Longrightarrow> findPath_iterations G sx sy ex ey d = 0"
  by (auto simp: findPath_iterations_def Let_def getNode_def isWalkable_reset)

lemma findPath_iterations_search:
  "isWalkable G sx sy \<Longrightarrow> isWalkable G ex ey \<Longrightarrow>
   findPath_iterations G sx sy ex ey d =
     iterations (initStart (reset G) (sx, sy) (ex, ey)) (ex, ey) d [(sx, sy)] {}"
  by (simp add: findPath_iterations_def Let_def getNode_def isWalkable_reset)

lemma search_inv_start:
  assumes "isWalkable G sx sy"
  shows "search_inv (initStart (reset G) (sx, sy) e) (sx, sy) d [(sx, sy)] {}"
proof (rule search_inv_init)
  show "isWalkable (reset G) (fst (sx, sy)) (snd (sx, sy))"
    using assms by (simp add: isWalkable_reset)
  from assms have "isInBounds G sx sy" by (simp add: isWalkable_def)
  then show "node_parent (nodes (reset G) (sx, sy)) = None"
    by (simp add: reset_nodes resetNode_def)
qed

lemma findPath_total: "\<exists>p G'. findPath G sx sy ex ey d = Some (p, G')"
proof (cases "isWalkable G sx sy \<and> isWalkable G ex ey")
  case True
  then show ?thesis
    using searchLoop_total[OF search_inv_start[of G sx sy "(ex, ey)" d], of "(ex, ey)"]
    by (simp add: findPath_search)
next
  case False
  then show ?thesis using findPath_invalid[of G sx sy ex ey d] by auto
qed

lemma findPath_nonempty:
  assumes "findPath G sx sy ex ey d = Some (p, G')" "p \<noteq> []"
  shows "isWalkable G sx sy" "isWalkable G ex ey"
  using assms findPath_invalid[of G sx sy ex ey d] by auto

lemma findPath_walk:
  assumes wf: "wf_grid G" and res: "findPath G sx sy ex ey d = Some (p, G')" and ne: "p \<noteq> []"
  shows "is_walk G d p" "hd p = (sx, sy)" "last p = (ex, ey)"
    "int (length p) = node_g (nodes G' (ex, ey)) + 1"
proof -
  note w = findPath_nonempty[OF res ne]
  have lay: "layout G' = layout G" by (rule findPath_frame(1)[OF res])
  have wf': "wf_grid G'" using wf by (simp add: layout_wf_grid[OF lay])
  from res have "searchLoop (initStart (reset G) (sx, sy) (ex, ey)) (ex, ey) d [(sx, sy)] {}
      = Some (p, G')"
    by (simp add: findPath_search[OF w])
  from searchLoop_path[OF search_inv_start[OF w(1)] this ne] obtain q where q:
    "p = map (coordOf G') q" "q \<noteq> []" "hd q = (sx, sy)" "last q = (ex, ey)"
    "\<forall>r\<in>set q. isWalkable G' (fst r) (snd r)"
    "successively (\<lambda>a b. b \<in> set (getNeighbors G' a d)) q"
    "int (length q) = node_g (nodes G' (ex, ey)) + 1"
    by blast
  have "map (coordOf G') q = map (\<lambda>r. r) q"
    using q(5) wf_coordOf[OF wf'] by (intro map_cong) auto
  with q(1) have pq: "p = q" by simp
  have "successively (step_ok d) q"
    using q(6)
  proof (rule successively_weaken)
    fix a b assume "a \<in> set q" "b \<in> set (getNeighbors G' a d)"
    with q(5) show "step_ok d a b" using wf_getNeighbors_step_ok[OF wf'] by blast
  qed
  moreover have "list_all (\<lambda>c. isWalkable G (fst c) (snd c)) q"
    using q(5) by (simp add: list_all_iff layout_isWalkable[OF lay])
  ultimately show "is_walk G d p" using q(2) by (simp add: is_walk_def pq)
  show "hd p = (sx, sy)" "last p = (ex, ey)"
    "int (length p) = node_g (nodes G' (ex, ey)) + 1"
    using q(3,4,7) by (simp_all add: pq)
qed

lemma successively_nth:
  "successively P xs \<Longrightarrow> Suc i < length xs \<Longrightarrow> P (xs ! i) (xs ! Suc i)"
proof (induction xs arbitrary: i)
  case Nil
  then show ?case by simp
next
  case (Cons x xs)
  then show ?case by (cases xs; cases i) auto
qed

lemma walk_stays_in_closed_set:
  assumes "is_walk G d q" "hd q \<in> S"
    and "\<And>a b. a \<in> S \<Longrightarrow> step_ok d a b \<Longrightarrow> isWalkable G (fst b) (snd b) \<Longrightarrow> b \<in> S"
  shows "set q \<subseteq> S"
proof -
  have "q \<noteq> [] \<Longrightarrow> list_all (\<lambda>c. isWalkable G (fst c) (snd c)) q \<Longrightarrow>
        successively (step_ok d) q \<Longrightarrow> hd q \<in> S \<Longrightarrow> set q \<subseteq> S"
  proof (induction q)
    case Nil
    then show ?case by simp
  next
    case (Cons a q)
    show ?case
    proof (cases q)
      case Nil
      with Cons.prems show ?thesis by simp
    next
      case (Cons b q')
      with Cons.prems have "step_ok d a b" "isWalkable G (fst b) (snd b)" "a \<in> S" by simp_all
      then have "b \<in> S" using assms(3) by blast
      with Cons Cons.prems Cons.IH show ?thesis by simp
    qed
  qed
  with assms(1,2) show ?thesis by (simp add: is_walk_def)
qed

section \<open>Concrete runs\<close>

lemma run_open_2x2:
  "\<exists>G'. findPath (Grid 2 2) 0 0 1 1 False = Some ([(0, 0), (1, 0), (1, 1)], G')"
proof -
  obtain p G' where r: "findPath (Grid 2 2) 0 0 1 1 False = Some (p, G')"
    using findPath_total by blast
  have "map_option fst (findPath (Grid 2 2) 0 0 1 1 False) = Some [(0, 0), (1, 0), (1, 1)]"
    by code_simp
  with r show ?thesis by simp
qed

lemma run_detour_3x2:
  "\<exists>G'. findPath (setWalkable (Grid 3 2) 1 0 False) 0 0 2 0 False =
     Some ([(0, 0), (0, 1), (1, 1), (2, 1), (2, 0)], G')"
proof -
  obtain p G' where r: "findPath (setWalkable (Grid 3 2) 1 0 False) 0 0 2 0 False = Some (p, G')"
    using findPath_total by blast
  have "map_option fst (findPath (setWalkable (Grid 3 2) 1 0 False) 0 0 2 0 False) =
      Some [(0, 0), (0, 1), (1, 1), (2, 1), (2, 0)]"
    by code_simp
  with r show ?thesis by simp
qed

lemma run_diagonal_3x3:
  "\<exists>G'. findPath (Grid 3 3) 0 0 2 1 True = Some ([(0, 0), (1, 1), (2, 1)], G')"
proof -
  obtain p G' where r: "findPath (Grid 3 3) 0 0 2 1 True = Some (p, G')"
    using findPath_total by blast
  have "map_option fst (findPath (Grid 3 3) 0 0 2 1 True) = Some [(0, 0), (1, 1), (2, 1)]"
    by code_simp
  with r show ?thesis by simp
qed


section \<open>Frame and repeatability\<close>

text \<open>
  C10. A call of \<^verbatim>\<open>findPath\<close> leaves the grid's width and height and every cell's
  \<open>x\<close>, \<open>y\<close> and \<open>walkable\<close> as they were; of the seven fields of a cell only
  \<open>g\<close>, \<open>h\<close>, \<open>f\<close> and \<open>parent\<close> can differ afterwards.
\<close>

theorem findPath_keeps_layout:
  assumes "findPath G startX startY endX endY diagonal = Some (path, G')"
  shows "width G' = width G \<and> height G' = height G \<and>
     (\<forall>r. node_x (nodes G' r) = node_x (nodes G r) \<and>
          node_y (nodes G' r) = node_y (nodes G r) \<and>
          node_walkable (nodes G' r) = node_walkable (nodes G r))"
  using layoutD[OF findPath_frame(1)[OF assms]] by simp

theorem findPath_keeps_layout_witness:
  "\<exists>G'. findPath (setWalkable (Grid 3 2) 1 0 False) 0 0 2 0 False =
       Some ([(0, 0), (0, 1), (1, 1), (2, 1), (2, 0)], G') \<and>
     width G' = 3 \<and> height G' = 2 \<and> \<not> node_walkable (nodes G' (1, 0)) \<and>
     node_x (nodes G' (2, 1)) = 2 \<and> node_y (nodes G' (2, 1)) = 1"
proof -
  from run_detour_3x2 obtain G' where
    r: "findPath (setWalkable (Grid 3 2) 1 0 False) 0 0 2 0 False =
       Some ([(0, 0), (0, 1), (1, 1), (2, 1), (2, 0)], G')" by blast
  have "width (setWalkable (Grid 3 2) 1 0 False) = 3" "height (setWalkable (Grid 3 2) 1 0 False) = 2"
    "\<not> node_walkable (nodes (setWalkable (Grid 3 2) 1 0 False) (1, 0))"
    "node_x (nodes (setWalkable (Grid 3 2) 1 0 False) (2, 1)) = 2"
    "node_y (nodes (setWalkable (Grid 3 2) 1 0 False) (2, 1)) = 1"
    by code_simp+
  with findPath_keeps_layout[OF r] r show ?thesis by auto
qed

text \<open>
  C6. A second call of \<^verbatim>\<open>findPath\<close> with the same arguments, on the grid as the first
  call left it, returns the same path (and leaves the same grid).
\<close>

theorem findPath_twice:
  assumes "findPath G startX startY endX endY diagonal = Some (path, G')"
  shows "findPath G' startX startY endX endY diagonal = Some (path, G')"
proof -
  have "reset G' = reset G"
    using findPath_frame[OF assms] by (rule reset_cong)
  then have "findPath G' startX startY endX endY diagonal =
      findPath G startX startY endX endY diagonal"
    by (rule findPath_reset)
  with assms show ?thesis by simp
qed

theorem findPath_twice_witness:
  "\<exists>G'. findPath (Grid 2 2) 0 0 1 1 False = Some ([(0, 0), (1, 0), (1, 1)], G') \<and>
        findPath G' 0 0 1 1 False = Some ([(0, 0), (1, 0), (1, 1)], G')"
proof -
  from run_open_2x2 obtain G' where
    r: "findPath (Grid 2 2) 0 0 1 1 False = Some ([(0, 0), (1, 0), (1, 1)], G')" by blast
  from findPath_twice[OF r] r show ?thesis by blast
qed

section \<open>Start equal to end\<close>

lemma selectLowest_single: "selectLowest G [s] (Suc 0) s 0 = (s, 0)"
  by (subst selectLowest.simps) simp

lemma initStart_same_cell:
  assumes "isInBounds G x y"
  shows "initStart (reset G) (x, y) (x, y) = reset G"
proof (rule grid.equality)
  let ?R = "reset G"
  have z: "node_g (nodes ?R (x, y)) = 0" "node_h (nodes ?R (x, y)) = 0"
    "node_f (nodes ?R (x, y)) = 0"
    using assms by (simp_all add: reset_nodes resetNode_def)
  have "(nodes ?R (x, y))\<lparr>node_g := 0, node_h := 0, node_f := 0\<rparr> = nodes ?R (x, y)"
    using z by (cases "nodes ?R (x, y)") simp
  then show "nodes (initStart ?R (x, y) (x, y)) = nodes ?R"
    by (auto simp: fun_eq_iff initStart_nodes heuristic_def)
  show "width (initStart ?R (x, y) (x, y)) = width ?R"
    "height (initStart ?R (x, y) (x, y)) = height ?R"
    using layoutD(1,2)[OF layout_initStart] by simp_all
  show "grid.more (initStart ?R (x, y) (x, y)) = grid.more ?R" by simp
qed

text \<open>
  C3. For an in-bounds walkable cell \<open>(x, y)\<close>, \<^verbatim>\<open>findPath(x, y, x, y, diagonal)\<close> returns
  exactly \<open>[(x, y)]\<close>: the loop body runs once, that pass takes the goal test (no call of
  \<^verbatim>\<open>getNeighbors\<close>, nothing enters the closed set), and the grid is left as \<^verbatim>\<open>reset\<close>
  made it.
\<close>

theorem findPath_start_is_end:
  assumes "wf_grid G" "isInBounds G x y" "node_walkable (nodes G (x, y))"
  shows "findPath G x y x y diagonal = Some ([(x, y)], reset G) \<and>
     loopBody (initStart (reset G) (x, y) (x, y)) (x, y) diagonal [(x, y)] {} = Found \<and>
     findPath_iterations G x y x y diagonal = 1"
proof -
  let ?R = "reset G"
  from assms(2,3) have w: "isWalkable G x y" by (simp add: isWalkable_def)
  have init: "initStart ?R (x, y) (x, y) = ?R" by (rule initStart_same_cell[OF assms(2)])
  have body: "loopBody ?R (x, y) diagonal [(x, y)] {} = Found"
    by (rule trans[OF loopBody_unfold[of ?R "[(x, y)]" "(x, y)" 0]])
       (simp_all add: selectLowest_single)
  have wfR: "wf_grid ?R" using assms(1) by (simp add: layout_wf_grid[OF layout_reset])
  have "coordOf ?R (x, y) = (x, y)"
    by (rule wf_coordOf[OF wfR]) (simp add: isWalkable_reset w)
  moreover have "node_parent (nodes ?R (x, y)) = None"
    using assms(2) by (simp add: reset_nodes resetNode_def)
  ultimately have "reconstructPath ?R (x, y) = Some [(x, y)]"
    by (simp add: reconstructPath_def reconstructLoop_Some reconstructLoop_None)
  then have "findPath G x y x y diagonal = Some ([(x, y)], ?R)"
    by (simp add: findPath_search[OF w w] init searchLoop_Found[OF _ body])
  moreover have "findPath_iterations G x y x y diagonal = 1"
    by (simp add: findPath_iterations_search[OF w w] init iterations_Found[OF _ body])
  ultimately show ?thesis using body init by simp
qed

theorem findPath_start_is_end_witness:
  "wf_grid (setWalkable (Grid 3 2) 1 0 False) \<and>
   isInBounds (setWalkable (Grid 3 2) 1 0 False) 2 1 \<and>
   node_walkable (nodes (setWalkable (Grid 3 2) 1 0 False) (2, 1)) \<and>
   findPath (setWalkable (Grid 3 2) 1 0 False) 2 1 2 1 True =
     Some ([(2, 1)], reset (setWalkable (Grid 3 2) 1 0 False)) \<and>
   findPath_iterations (setWalkable (Grid 3 2) 1 0 False) 2 1 2 1 True = 1"
proof -
  have wf: "wf_grid (setWalkable (Grid 3 2) 1 0 False)"
    by (simp add: wf_grid_setWalkable wf_grid_Grid)
  have b: "isInBounds (setWalkable (Grid 3 2) 1 0 False) 2 1"
    "node_walkable (nodes (setWalkable (Grid 3 2) 1 0 False) (2, 1))"
    by code_simp+
  from findPath_start_is_end[OF wf b, of True] wf b show ?thesis by simp
qed

section \<open>The returned path\<close>

text \<open>
  C5. Every coordinate of a path returned by \<^verbatim>\<open>findPath\<close> is in bounds and names a cell
  whose \<open>walkable\<close> flag is set in the grid the call was made on.
\<close>

theorem findPath_path_walkable:
  assumes "wf_grid G" "findPath G startX startY endX endY diagonal = Some (path, G')"
  shows "\<forall>c\<in>set path. isInBounds G (fst c) (snd c) \<and> node_walkable (nodes G c)"
proof (cases "path = []")
  case True
  then show ?thesis by simp
next
  case False
  from findPath_walk(1)[OF assms False]
  have "list_all (\<lambda>c. isWalkable G (fst c) (snd c)) path" by (simp add: is_walk_def)
  then show ?thesis by (simp add: list_all_iff isWalkable_def)
qed

theorem findPath_path_walkable_witness:
  "wf_grid (setWalkable (Grid 3 2) 1 0 False) \<and>
   (\<exists>G'. findPath (setWalkable (Grid 3 2) 1 0 False) 0 0 2 0 False =
       Some ([(0, 0), (0, 1), (1, 1), (2, 1), (2, 0)], G')) \<and>
   list_all (\<lambda>c. isInBounds (setWalkable (Grid 3 2) 1 0 False) (fst c) (snd c) \<and>
               node_walkable (nodes (setWalkable (Grid 3 2) 1 0 False) c))
     [(0, 0), (0, 1), (1, 1), (2, 1), (2, 0)]"
proof -
  have wf: "wf_grid (setWalkable (Grid 3 2) 1 0 False)"
    by (simp add: wf_grid_setWalkable wf_grid_Grid)
  from run_detour_3x2 obtain G' where
    r: "findPath (setWalkable (Grid 3 2) 1 0 False) 0 0 2 0 False =
       Some ([(0, 0), (0, 1), (1, 1), (2, 1), (2, 0)], G')" by blast
  from findPath_path_walkable[OF wf r] wf r show ?thesis
    unfolding list_all_iff by blast
qed

text \<open>
  C4. In a path returned by \<^verbatim>\<open>findPath\<close>, each coordinate differs from the one before it
  by one entry of the direction table: one of the 4 orthogonal unit steps, or one of the 8
  orthogonal and diagonal unit steps when \<open>diagonal\<close> is set.
\<close>

theorem findPath_path_contiguous:
  assumes "wf_grid G" "findPath G startX startY endX endY diagonal = Some (path, G')"
    and "Suc i < length path"
  shows "(fst (path ! Suc i) - fst (path ! i), snd (path ! Suc i) - snd (path ! i)) \<in>
     (if diagonal
      then {(0, -1), (1, 0), (0, 1), (-1, 0), (1, -1), (1, 1), (-1, 1), (-1, -1)}
      else {(0, -1), (1, 0), (0, 1), (-1, 0)})"
proof -
  from assms(3) have ne: "path \<noteq> []" by auto
  from findPath_walk(1)[OF assms(1,2) ne]
  have "successively (step_ok diagonal) path" by (simp add: is_walk_def)
  from successively_nth[OF this assms(3)]
  have "(fst (path ! Suc i) - fst (path ! i), snd (path ! Suc i) - snd (path ! i))
      \<in> set (directions diagonal)"
    by (simp add: step_ok_def)
  then show ?thesis by (cases diagonal) (auto simp: directions_def)
qed

theorem findPath_path_contiguous_witness:
  "wf_grid (Grid 3 3) \<and>
   (\<exists>G'. findPath (Grid 3 3) 0 0 2 1 True = Some ([(0, 0), (1, 1), (2, 1)], G')) \<and>
   Suc 0 < length [(0, 0), (1, 1), (2, 1) :: coord] \<and>
   (fst ([(0, 0), (1, 1), (2, 1) :: coord] ! Suc 0) - fst ([(0, 0), (1, 1), (2, 1) :: coord] ! 0),
    snd ([(0, 0), (1, 1), (2, 1) :: coord] ! Suc 0) - snd ([(0, 0), (1, 1), (2, 1) :: coord] ! 0)) \<in>
     {(0, -1), (1, 0), (0, 1), (-1, 0), (1, -1), (1, 1), (-1, 1), (-1, -1)}"
proof -
  have wf: "wf_grid (Grid 3 3)" by (rule wf_grid_Grid)
  from run_diagonal_3x3 obtain G' where
    r: "findPath (Grid 3 3) 0 0 2 1 True = Some ([(0, 0), (1, 1), (2, 1)], G')" by blast
  have l: "Suc 0 < length [(0, 0), (1, 1), (2, 1) :: coord]" by simp
  from findPath_path_contiguous[OF wf r l] wf r l show ?thesis by auto
qed

section \<open>Failure is the empty path\<close>

text \<open>
  On integer coordinates the call returns, and it returns the empty path whenever the
  start or the end is out of bounds or not walkable, or no walk of permitted steps over
  walkable cells leads from the start to the end.
\<close>

lemma findPath_failure_empty:
  assumes "wf_grid G"
  shows "(\<exists>path G'. findPath G startX startY endX endY diagonal = Some (path, G')) \<and>
     (\<not> isInBounds G startX startY \<or> \<not> isInBounds G endX endY \<or>
      \<not> node_walkable (nodes G (startX, startY)) \<or> \<not> node_walkable (nodes G (endX, endY)) \<or>
      \<not> reachable G diagonal (startX, startY) (endX, endY)
      \<longrightarrow> (\<exists>G'. findPath G startX startY endX endY diagonal = Some ([], G')))"
proof (intro conjI impI)
  show "\<exists>path G'. findPath G startX startY endX endY diagonal = Some (path, G')"
    by (rule findPath_total)
next
  assume bad: "\<not> isInBounds G startX startY \<or> \<not> isInBounds G endX endY \<or>
      \<not> node_walkable (nodes G (startX, startY)) \<or> \<not> node_walkable (nodes G (endX, endY)) \<or>
      \<not> reachable G diagonal (startX, startY) (endX, endY)"
  show "\<exists>G'. findPath G startX startY endX endY diagonal = Some ([], G')"
  proof (cases "isWalkable G startX startY \<and> isWalkable G endX endY")
    case False
    then show ?thesis using findPath_invalid[of G startX startY endX endY diagonal] by blast
  next
    case True
    with bad have unreach: "\<not> reachable G diagonal (startX, startY) (endX, endY)"
      by (auto simp: isWalkable_def)
    obtain path G' where r: "findPath G startX startY endX endY diagonal = Some (path, G')"
      using findPath_total by blast
    have "path = []"
    proof (rule ccontr)
      assume "path \<noteq> []"
      from findPath_walk(1-3)[OF assms r this]
      have "reachable G diagonal (startX, startY) (endX, endY)"
        unfolding reachable_def by blast
      with unreach show False by contradiction
    qed
    with r show ?thesis by blast
  qed
qed

lemma blocked_corridor_unreachable:
  "\<not> reachable (setWalkable (Grid 3 1) 1 0 False) False (0, 0) (2, 0)"
proof
  let ?G = "setWalkable (Grid 3 1) 1 0 False"
  assume "reachable ?G False (0, 0) (2, 0)"
  then obtain q where q: "is_walk ?G False q" "hd q = (0, 0)" "last q = (2, 0)"
    unfolding reachable_def by blast
  have w: "isWalkable ?G x y \<longleftrightarrow> (x = 0 \<or> x = 2) \<and> y = 0" for x y
    by (auto simp: setWalkable_def isWalkable_def isInBounds_def update_node_def
        Grid_dims Grid_nodes Node_def)
  have "set q \<subseteq> {(0, 0)}"
  proof (rule walk_stays_in_closed_set[OF q(1)])
    show "hd q \<in> {(0, 0)}" using q(2) by simp
  next
    fix a b :: coord
    assume "a \<in> {(0, 0)}" "step_ok False a b" "isWalkable ?G (fst b) (snd b)"
    then show "b \<in> {(0, 0)}"
      by (auto simp: step_ok_def directions_def w prod_eq_iff)
  qed
  moreover from q(1) have "last q \<in> set q" by (simp add: is_walk_def)
  ultimately show False using q(3) by auto
qed

section \<open>Integer and non-integer coordinates\<close>

lemma is_integer_of_int: "is_integer (of_int n)"
  by (simp add: is_integer_def)

lemma isInBounds_number_of_int: "isInBounds_number G (of_int x) (of_int y) = isInBounds G x y"
  by (simp add: isInBounds_number_def isInBounds_def)

lemma getNode_number_of_int: "getNode_number G (of_int x) (of_int y) = Inr (getNode G x y)"
  by (simp add: getNode_number_def isWalkable_number_def readNode_def is_integer_of_int
      isInBounds_number_of_int getNode_def isWalkable_def)

lemma findPath_number_of_int:
  "findPath_number G (of_int sx) (of_int sy) (of_int ex) (of_int ey) d =
     Inr (findPath G sx sy ex ey d)"
  by (simp add: findPath_number_def findPath_def getNode_number_of_int Let_def
      split: option.splits)

lemma half_not_integer: "\<not> is_integer (1 / 2)"
proof
  assume "is_integer (1 / 2)"
  then have "rat_of_int (2 * \<lfloor>1 / 2 :: rat\<rfloor>) = rat_of_int 1" by (simp add: is_integer_def)
  then have "2 * \<lfloor>1 / 2 :: rat\<rfloor> = 1" by (simp only: of_int_eq_iff)
  then show False by presburger
qed

text \<open>
  The call is not free of exceptions for every number: on \<^verbatim>\<open>new Grid(3, 2)\<close>,
  \<^verbatim>\<open>findPath(0.5, 0, 2, 1, false)\<close> passes the bounds check, finds no object at
  \<^verbatim>\<open>nodes[0][0.5]\<close> and throws a \<^verbatim>\<open>TypeError\<close>.
\<close>

theorem findPath_fractional_coordinate_throws:
  "findPath_number (Grid 3 2) (1 / 2) 0 2 1 False = Inl TypeError"
  by (simp add: findPath_number_def getNode_number_def isWalkable_number_def readNode_def
      half_not_integer isInBounds_number_def reset_dims Grid_dims Let_def)

text \<open>
  C2, for integer coordinates. For every well-formed grid and every input whose coordinates
  are integers, \<^verbatim>\<open>findPath\<close> throws no exception and returns a path; the path is empty
  whenever the start or the end is out of bounds or not walkable, or the goal is not
  reachable from the start.
\<close>

theorem findPath_integer_failure_empty:
  assumes "wf_grid G"
  shows "(\<exists>path G'.
       findPath_number G (of_int startX) (of_int startY) (of_int endX) (of_int endY) diagonal =
         Inr (Some (path, G'))) \<and>
     (\<not> isInBounds G startX startY \<or> \<not> isInBounds G endX endY \<or>
      \<not> node_walkable (nodes G (startX, startY)) \<or> \<not> node_walkable (nodes G (endX, endY)) \<or>
      \<not> reachable G diagonal (startX, startY) (endX, endY)
      \<longrightarrow> (\<exists>G'.
       findPath_number G (of_int startX) (of_int startY) (of_int endX) (of_int endY) diagonal =
         Inr (Some ([], G'))))"
  using findPath_failure_empty[OF assms, of startX startY endX endY diagonal]
  unfolding findPath_number_of_int by simp

theorem findPath_integer_failure_empty_witness:
  "wf_grid (setWalkable (Grid 3 1) 1 0 False) \<and>
   \<not> reachable (setWalkable (Grid 3 1) 1 0 False) False (0, 0) (2, 0) \<and>
   (\<exists>G'. findPath_number (setWalkable (Grid 3 1) 1 0 False) 0 0 2 0 False = Inr (Some ([], G'))) \<and>
   (\<exists>G'. findPath_number (setWalkable (Grid 3 1) 1 0 False) 0 0 5 0 False = Inr (Some ([], G'))) \<and>
   (\<exists>G'. findPath_number (setWalkable (Grid 3 1) 1 0 False) 1 0 2 0 False = Inr (Some ([], G')))"
proof -
  let ?G = "setWalkable (Grid 3 1) 1 0 False"
  have wf: "wf_grid ?G" by (simp add: wf_grid_setWalkable wf_grid_Grid)
  have oob: "\<not> isInBounds ?G 5 0" and blocked: "\<not> node_walkable (nodes ?G (1, 0))"
    by code_simp+
  from findPath_integer_failure_empty[OF wf, of 0 0 2 0 False]
    blocked_corridor_unreachable
  have 1: "\<exists>G'. findPath_number ?G 0 0 2 0 False = Inr (Some ([], G'))" by simp
  from findPath_integer_failure_empty[OF wf, of 0 0 5 0 False] oob
  have 2: "\<exists>G'. findPath_number ?G 0 0 5 0 False = Inr (Some ([], G'))" by simp
  from findPath_integer_failure_empty[OF wf, of 1 0 2 0 False] blocked
  have 3: "\<exists>G'. findPath_number ?G 1 0 2 0 False = Inr (Some ([], G'))" by simp
  from wf blocked_corridor_unreachable 1 2 3 show ?thesis by blast
qed

section \<open>Number of passes\<close>

lemma card_inBoundsRefs: "card (inBoundsRefs G) = nat (width G) * nat (height G)"
  by (simp add: inBoundsRefs_def card_cartesian_product)

lemma loopBody_moves_one:
  assumes inv: "search_inv G s d os cl" and ne: "os \<noteq> []"
    and body: "loopBody G e d os cl = Expanded G2 os2 cl2"
  shows "\<exists>c\<in>set os. c \<noteq> e \<and> c \<notin> cl \<and> cl2 = insert c cl \<and> c \<notin> set os2 \<and>
           distinct os2 \<and> set os2 \<inter> cl2 = {} \<and> set os - {c} \<subseteq> set os2"
proof -
  from body ne obtain k new where k: "k < length os" "os ! k \<noteq> e"
    "cl2 = insert (os ! k) cl" "os2 = splice1 os k @ new"
    by (rule loopBody_Expanded)
  note D = search_invD[OF inv]
  note D2 = search_invD[OF search_inv_step[OF inv ne body]]
  have mem: "os ! k \<in> set os" using k(1) by (rule nth_mem)
  with D(2) have "os ! k \<notin> cl" by blast
  moreover from D2(2) k(3) have "os ! k \<notin> set os2" by blast
  moreover have "set os - {os ! k} \<subseteq> set os2"
    unfolding k(4) using set_splice1[OF D(1) k(1)] by simp
  ultimately show ?thesis using mem k(2,3) D2(1,2) by blast
qed

lemma iterations_bound:
  "search_inv G s d os cl \<Longrightarrow> isWalkable G (fst e) (snd e) \<Longrightarrow> e \<notin> cl \<Longrightarrow>
   iterations G e d os cl \<le> card (inBoundsRefs G - cl)"
proof (induction G e d os cl rule: iterations.induct)
  case (1 G e d os cl)
  have ein: "e \<in> inBoundsRefs G - cl"
    using walkable_inBoundsRefs[OF "1.prems"(2)] "1.prems"(3) by simp
  have fin: "finite (inBoundsRefs G - cl)" using finite_inBoundsRefs by simp
  from ein fin have pos: "1 \<le> card (inBoundsRefs G - cl)"
    by (metis One_nat_def Suc_leI card_gt_0_iff empty_iff)
  show ?case
  proof (cases "os = []")
    case True
    then show ?thesis by (simp add: iterations_Nil)
  next
    case False
    show ?thesis
    proof (cases "loopBody G e d os cl")
      case Found
      with pos show ?thesis by (simp add: iterations_Found[OF False Found])
    next
      case (Expanded G1 os1 cl1)
      from loopBody_moves_one[OF "1.prems"(1) False Expanded] obtain c where
        c: "c \<in> set os" "c \<noteq> e" "c \<notin> cl" "cl1 = insert c cl" by blast
      from Expanded False obtain k new where lay: "layout G1 = layout G"
        by (rule loopBody_Expanded)
      have U: "inBoundsRefs G1 = inBoundsRefs G" by (rule layout_inBoundsRefs[OF lay])
      have cin: "c \<in> inBoundsRefs G - cl"
        using search_invD(3)[OF "1.prems"(1), of c] c(1,3) walkable_inBoundsRefs by simp
      have inv1: "search_inv G1 s d os1 cl1"
        by (rule search_inv_step[OF "1.prems"(1) False Expanded])
      have e1: "isWalkable G1 (fst e) (snd e)" "e \<notin> cl1"
        using "1.prems"(2,3) c(2,4) by (simp_all add: layout_isWalkable[OF lay])
      from "1.IH"[OF False Expanded inv1 e1]
      have "iterations G1 e d os1 cl1 \<le> card (inBoundsRefs G - cl1)" by (simp add: U)
      also have "inBoundsRefs G - cl1 = (inBoundsRefs G - cl) - {c}" using c(4) by auto
      also have "card \<dots> = card (inBoundsRefs G - cl) - 1" using cin fin by simp
      finally show ?thesis using pos by (simp add: iterations_Expanded[OF False Expanded])
    qed
  qed
qed

lemma findPath_iterations_bound:
  "findPath_iterations G sx sy ex ey d \<le> nat (width G) * nat (height G)"
proof (cases "isWalkable G sx sy \<and> isWalkable G ex ey")
  case False
  then show ?thesis using findPath_iterations_invalid[of G sx sy ex ey d] by auto
next
  case True
  let ?I = "initStart (reset G) (sx, sy) (ex, ey)"
  have lay: "layout ?I = layout G" using layout_initStart[of "reset G"] layout_reset[of G] by simp
  have "isWalkable ?I (fst (ex, ey)) (snd (ex, ey))"
    using True by (simp add: layout_isWalkable[OF lay])
  from iterations_bound[OF search_inv_start[of G sx sy "(ex, ey)" d] this] True
  have "findPath_iterations G sx sy ex ey d \<le> card (inBoundsRefs ?I - {})"
    by (simp add: findPath_iterations_search)
  then show ?thesis by (simp add: layout_inBoundsRefs[OF lay] card_inBoundsRefs)
qed

lemma nthState_inv:
  "search_inv G s d os cl \<Longrightarrow> nthState n G e d os cl = Some (G', os', cl') \<Longrightarrow>
   search_inv G' s d os' cl'"
proof (induction n arbitrary: G os cl)
  case 0
  then show ?case by simp
next
  case (Suc n)
  from Suc.prems(2) have ne: "os \<noteq> []" by (auto split: if_splits)
  with Suc.prems(2) obtain G1 os1 cl1 where
    body: "loopBody G e d os cl = Expanded G1 os1 cl1"
    and nxt: "nthState n G1 e d os1 cl1 = Some (G', os', cl')"
    by (cases "loopBody G e d os cl") simp_all
  from Suc.IH[OF search_inv_step[OF Suc.prems(1) ne body] nxt] show ?case .
qed

text \<open>
  C9. \<^verbatim>\<open>findPath\<close> returns for every grid and input, after at most
  \<open>width * height\<close> passes through the loop body. At the start of every pass the open set
  has no duplicates and shares no cell with the closed set, and a pass that does not return
  moves exactly one cell from the open set to the closed set.
\<close>

theorem findPath_terminates:
  "(\<exists>path G'. findPath G startX startY endX endY diagonal = Some (path, G')) \<and>
   findPath_iterations G startX startY endX endY diagonal \<le> nat (width G) * nat (height G) \<and>
   (0 \<le> width G \<and> 0 \<le> height G \<longrightarrow>
      int (findPath_iterations G startX startY endX endY diagonal) \<le> width G * height G) \<and>
   (\<forall>n G1 openSet closedSet.
      isWalkable G startX startY \<and> isWalkable G endX endY \<and>
      nthState n (initStart (reset G) (startX, startY) (endX, endY)) (endX, endY) diagonal
        [(startX, startY)] {} = Some (G1, openSet, closedSet) \<longrightarrow>
      distinct openSet \<and> set openSet \<inter> closedSet = {} \<and>
      (openSet \<noteq> [] \<longrightarrow>
         (case loopBody G1 (endX, endY) diagonal openSet closedSet of
            Found \<Rightarrow> True
          | Expanded G2 openSet2 closedSet2 \<Rightarrow>
              \<exists>c\<in>set openSet. c \<noteq> (endX, endY) \<and> c \<notin> closedSet \<and>
                 closedSet2 = insert c closedSet \<and> c \<notin> set openSet2 \<and>
                 distinct openSet2 \<and> set openSet2 \<inter> closedSet2 = {} \<and>
                 set openSet - {c} \<subseteq> set openSet2)))"
proof (intro conjI allI impI)
  show "\<exists>path G'. findPath G startX startY endX endY diagonal = Some (path, G')"
    by (rule findPath_total)
  show b: "findPath_iterations G startX startY endX endY diagonal \<le> nat (width G) * nat (height G)"
    by (rule findPath_iterations_bound)
  show "int (findPath_iterations G startX startY endX endY diagonal) \<le> width G * height G"
    if "0 \<le> width G \<and> 0 \<le> height G"
  proof -
    from b have "int (findPath_iterations G startX startY endX endY diagonal)
        \<le> int (nat (width G) * nat (height G))" by (simp only: of_nat_le_iff)
    with that show ?thesis by simp
  qed
next
  fix n G1 openSet closedSet
  assume a: "isWalkable G startX startY \<and> isWalkable G endX endY \<and>
      nthState n (initStart (reset G) (startX, startY) (endX, endY)) (endX, endY) diagonal
        [(startX, startY)] {} = Some (G1, openSet, closedSet)"
  then have inv: "search_inv G1 (startX, startY) diagonal openSet closedSet"
    using nthState_inv[OF search_inv_start] by blast
  show "distinct openSet" "set openSet \<inter> closedSet = {}"
    by (rule search_invD(1)[OF inv], rule search_invD(2)[OF inv])
  show "case loopBody G1 (endX, endY) diagonal openSet closedSet of
            Found \<Rightarrow> True
          | Expanded G2 openSet2 closedSet2 \<Rightarrow>
              \<exists>c\<in>set openSet. c \<noteq> (endX, endY) \<and> c \<notin> closedSet \<and>
                 closedSet2 = insert c closedSet \<and> c \<notin> set openSet2 \<and>
                 distinct openSet2 \<and> set openSet2 \<inter> closedSet2 = {} \<and>
                 set openSet - {c} \<subseteq> set openSet2"
    if ne: "openSet \<noteq> []"
  proof (cases "loopBody G1 (endX, endY) diagonal openSet closedSet")
    case Found
    then show ?thesis by simp
  next
    case (Expanded G2 os2 cl2)
    from loopBody_moves_one[OF inv ne Expanded] show ?thesis by (simp add: Expanded)
  qed
qed

lemma state_after_one_pass_2x2:
  "\<exists>G1. nthState 1 (initStart (reset (Grid 2 2)) (0, 0) (1, 1)) (1, 1) False [(0, 0)] {} =
     Some (G1, [(1, 0), (0, 1)], {(0, 0)})"
proof -
  have "map_option snd
      (nthState 1 (initStart (reset (Grid 2 2)) (0, 0) (1, 1)) (1, 1) False [(0, 0)] {}) =
     Some ([(1, 0), (0, 1)], {(0, 0)})"
    by code_simp
  then show ?thesis by auto
qed

theorem findPath_terminates_witness:
  "(\<exists>G'. findPath (Grid 2 2) 0 0 1 1 False = Some ([(0, 0), (1, 0), (1, 1)], G')) \<and>
   findPath_iterations (Grid 2 2) 0 0 1 1 False = 4 \<and>
   (4 :: nat) \<le> nat (width (Grid 2 2)) * nat (height (Grid 2 2)) \<and>
   isWalkable (Grid 2 2) 0 0 \<and> isWalkable (Grid 2 2) 1 1 \<and>
   (\<exists>G1. nthState 1 (initStart (reset (Grid 2 2)) (0, 0) (1, 1)) (1, 1) False [(0, 0)] {} =
       Some (G1, [(1, 0), (0, 1)], {(0, 0)}) \<and>
     (case loopBody G1 (1, 1) False [(1, 0), (0, 1)] {(0, 0)} of
        Found \<Rightarrow> True
      | Expanded G2 openSet2 closedSet2 \<Rightarrow>
          \<exists>c\<in>set [(1, 0), (0, 1)]. c \<notin> {(0, 0)} \<and> closedSet2 = insert c {(0, 0)} \<and>
             c \<notin> set openSet2 \<and> distinct openSet2))"
proof -
  have it: "findPath_iterations (Grid 2 2) 0 0 1 1 False = 4" by code_simp
  have w: "isWalkable (Grid 2 2) 0 0" "isWalkable (Grid 2 2) 1 1"
    by (simp_all add: isWalkable_Grid)
  from state_after_one_pass_2x2 obtain G1 where
    st: "nthState 1 (initStart (reset (Grid 2 2)) (0, 0) (1, 1)) (1, 1) False [(0, 0)] {} =
       Some (G1, [(1, 0), (0, 1)], {(0, 0)})" by blast
  note T = findPath_terminates[of "Grid 2 2" 0 0 1 1 False]
  from T have bound: "findPath_iterations (Grid 2 2) 0 0 1 1 False
      \<le> nat (width (Grid 2 2)) * nat (height (Grid 2 2))" by blast
  from T w st have
    "case loopBody G1 (1, 1) False [(1, 0), (0, 1)] {(0, 0)} of
        Found \<Rightarrow> True
      | Expanded G2 openSet2 closedSet2 \<Rightarrow>
          \<exists>c\<in>set [(1, 0), (0, 1)]. c \<noteq> (1, 1) \<and> c \<notin> {(0, 0)} \<and>
             closedSet2 = insert c {(0, 0)} \<and> c \<notin> set openSet2 \<and>
             distinct openSet2 \<and> set openSet2 \<inter> closedSet2 = {} \<and>
             set [(1, 0), (0, 1)] - {c} \<subseteq> set openSet2"
    by blast
  then have body:
    "case loopBody G1 (1, 1) False [(1, 0), (0, 1)] {(0, 0)} of
        Found \<Rightarrow> True
      | Expanded G2 openSet2 closedSet2 \<Rightarrow>
          \<exists>c\<in>set [(1, 0), (0, 1)]. c \<notin> {(0, 0)} \<and> closedSet2 = insert c {(0, 0)} \<and>
             c \<notin> set openSet2 \<and> distinct openSet2"
    by (cases "loopBody G1 (1, 1) False [(1, 0), (0, 1)] {(0, 0)}") auto
  from run_open_2x2 it bound w st body show ?thesis by (simp only: it) blast
qed

section \<open>Shortest paths on an open grid\<close>

lemma visitNeighbor_cases:
  assumes "visitNeighbor e c cl n (G, os) = (G', os')"
  obtains (closed) "n \<in> cl" "G' = G" "os' = os"
    | (keep) "n \<notin> cl" "n \<in> set os" "node_g (nodes G n) \<le> node_g (nodes G c) + 1"
        "G' = G" "os' = os"
    | (push) "n \<notin> cl" "n \<notin> set os" "G' = relax G n c (node_g (nodes G c) + 1) e"
        "os' = os @ [n]"
    | (better) "n \<notin> cl" "n \<in> set os" "node_g (nodes G c) + 1 < node_g (nodes G n)"
        "G' = relax G n c (node_g (nodes G c) + 1) e" "os' = os"
  using assms by (auto simp: visitNeighbor_def Let_def split: if_splits)

lemma wf_heuristic:
  assumes "wf_grid G" "isWalkable G (fst a) (snd a)" "isWalkable G (fst b) (snd b)"
  shows "heuristic G a b = manhattan a b"
  using wf_coordOf[OF assms(1,2)] wf_coordOf[OF assms(1,3)]
  by (simp add: heuristic_def manhattan_def coordOf_def prod_eq_iff)

lemma costs_ok_visit:
  assumes wf: "wf_grid G" and e: "isWalkable G (fst e) (snd e)"
    and c: "c \<in> cl" and n: "n \<in> set (getNeighbors G c False)"
    and ok: "costs_ok G s e os cl"
    and v: "visitNeighbor e c cl n (G, os) = (G', os')"
  shows "costs_ok G' s e os' cl"
proof -
  have relaxed: "costs_ok (relax G n c (node_g (nodes G c) + 1) e) s e os2 cl"
    if "n \<notin> cl" "set os2 = insert n (set os)" for os2
  proof -
    let ?G = "relax G n c (node_g (nodes G c) + 1) e"
    have h: "heuristic G n e = manhattan n e"
      by (rule wf_heuristic[OF wf getNeighbors_walkable[OF n] e])
    have fn: "node_f (nodes ?G n) = node_g (nodes ?G n) + manhattan n e"
      by (simp add: relax_nodes h)
    have other: "nodes ?G r = nodes G r" if "r \<noteq> n" for r
      using that by (simp add: relax_nodes)
    have 1: "\<forall>a\<in>set os2 \<union> cl. node_f (nodes ?G a) = node_g (nodes ?G a) + manhattan a e"
    proof
      fix a assume a: "a \<in> set os2 \<union> cl"
      show "node_f (nodes ?G a) = node_g (nodes ?G a) + manhattan a e"
      proof (cases "a = n")
        case True
        with fn show ?thesis by simp
      next
        case False
        with a that(2) have "a \<in> set os \<union> cl" by auto
        with ok have "node_f (nodes G a) = node_g (nodes G a) + manhattan a e"
          unfolding costs_ok_def by blast
        with False show ?thesis by (simp add: other)
      qed
    qed
    have 2: "\<forall>z\<in>cl. node_f (nodes ?G z) \<le> manhattan s e"
    proof
      fix z assume z: "z \<in> cl"
      with that(1) have "z \<noteq> n" by auto
      moreover from ok z have "node_f (nodes G z) \<le> manhattan s e"
        unfolding costs_ok_def by blast
      ultimately show "node_f (nodes ?G z) \<le> manhattan s e" by (simp add: other)
    qed
    from ok have "e \<notin> cl" unfolding costs_ok_def by blast
    with 1 2 show ?thesis unfolding costs_ok_def by blast
  qed
  from v show ?thesis
  proof (cases rule: visitNeighbor_cases)
    case closed
    with ok show ?thesis by simp
  next
    case keep
    with ok show ?thesis by simp
  next
    case push
    from relaxed[OF push(1), of os'] push show ?thesis by simp
  next
    case better
    from relaxed[OF better(1), of os'] better show ?thesis by auto
  qed
qed

lemma visitNeighbor_g_mono:
  assumes "visitNeighbor e c cl n (G, os) = (G', os')" "m \<in> set os"
  shows "m \<in> set os' \<and> node_g (nodes G' m) \<le> node_g (nodes G m)"
  using assms(1)
proof (cases rule: visitNeighbor_cases)
  case closed
  with assms(2) show ?thesis by simp
next
  case keep
  with assms(2) show ?thesis by simp
next
  case push
  with assms(2) have "m \<noteq> n" by auto
  with push assms(2) show ?thesis by (simp add: relax_nodes)
next
  case better
  with assms(2) show ?thesis by (cases "m = n") (simp_all add: relax_nodes)
qed

lemma settled_visit:
  assumes v: "visitNeighbor e c cl n (G, os) = (G', os')" and z: "z \<in> cl"
    and st: "settled G os cl z m"
  shows "settled G' os' cl z m"
proof (cases "m \<in> cl")
  case True
  then show ?thesis by (simp add: settled_def)
next
  case False
  with st have m: "m \<in> set os" "node_g (nodes G m) \<le> node_g (nodes G z) + 1"
    by (simp_all add: settled_def)
  from visitNeighbor_g_mono[OF v m(1)]
  have "m \<in> set os'" "node_g (nodes G' m) \<le> node_g (nodes G m)" by simp_all
  moreover have "nodes G' z = nodes G z"
    using visitNeighbor_nodes[OF v, of z] z by simp
  ultimately show ?thesis using m(2) by (simp add: settled_def)
qed

lemma settled_after_visit:
  assumes v: "visitNeighbor e c cl n (G, os) = (G', os')" and c: "c \<in> cl"
  shows "settled G' os' cl c n"
proof -
  have gc: "nodes G' c = nodes G c" using visitNeighbor_nodes[OF v, of c] c by simp
  from v show ?thesis
  proof (cases rule: visitNeighbor_cases)
    case closed
    then show ?thesis by (simp add: settled_def)
  next
    case keep
    then show ?thesis by (simp add: settled_def)
  next
    case push
    then show ?thesis unfolding settled_def gc by (simp add: relax_nodes)
  next
    case better
    then show ?thesis unfolding settled_def gc by (simp add: relax_nodes)
  qed
qed

lemma astar_fold:
  assumes wf: "wf_grid G" and e: "isWalkable G (fst e) (snd e)" and c: "c \<in> cl"
    and sub: "set ns \<subseteq> set (getNeighbors G c False)"
    and ok: "costs_ok G s e os cl"
    and f: "fold (visitNeighbor e c cl) ns (G, os) = (G', os')"
  shows "costs_ok G' s e os' cl \<and>
         (\<forall>z\<in>cl. \<forall>m. settled G os cl z m \<longrightarrow> settled G' os' cl z m) \<and>
         (\<forall>n\<in>set ns. settled G' os' cl c n)"
  using wf e sub ok f
proof (induction ns arbitrary: G os)
  case Nil
  then show ?case by simp
next
  case (Cons n ns)
  obtain G1 os1 where v: "visitNeighbor e c cl n (G, os) = (G1, os1)"
    by (cases "visitNeighbor e c cl n (G, os)")
  have lay: "layout G1 = layout G" by (rule layout_visitNeighbor[OF v])
  from Cons.prems(3) have n: "n \<in> set (getNeighbors G c False)" by simp
  have ok1: "costs_ok G1 s e os1 cl"
    by (rule costs_ok_visit[OF Cons.prems(1,2) c n Cons.prems(4) v])
  have wf1: "wf_grid G1" using Cons.prems(1) by (simp add: layout_wf_grid[OF lay])
  have e1: "isWalkable G1 (fst e) (snd e)"
    using Cons.prems(2) by (simp add: layout_isWalkable[OF lay])
  have sub1: "set ns \<subseteq> set (getNeighbors G1 c False)"
    using Cons.prems(3) by (simp add: layout_getNeighbors[OF lay])
  from Cons.prems(5) v have f1: "fold (visitNeighbor e c cl) ns (G1, os1) = (G', os')" by simp
  from Cons.IH[OF wf1 e1 sub1 ok1 f1] have IH:
    "costs_ok G' s e os' cl"
    "\<And>z m. z \<in> cl \<Longrightarrow> settled G1 os1 cl z m \<Longrightarrow> settled G' os' cl z m"
    "\<And>m. m \<in> set ns \<Longrightarrow> settled G' os' cl c m"
    by blast+
  have a: "settled G' os' cl z m" if "z \<in> cl" "settled G os cl z m" for z m
    using IH(2)[OF that(1) settled_visit[OF v that]] .
  have b: "settled G' os' cl c n"
    using IH(2)[OF c settled_after_visit[OF v c]] .
  from IH(1) a b IH(3) show ?case by auto
qed


lemma all_walkable_isWalkable: "all_walkable G \<Longrightarrow> isInBounds G x y \<Longrightarrow> isWalkable G x y"
  by (simp add: all_walkable_def isWalkable_def isInBounds_def)

lemma layout_all_walkable:
  assumes "layout G' = layout G" shows "all_walkable G' = all_walkable G"
  by (simp add: all_walkable_def layoutD[OF assms])

lemma toward_goal:
  assumes "a \<noteq> e" "isInBounds G (fst a) (snd a)" "isInBounds G (fst e) (snd e)"
  obtains dir where "dir \<in> set (directions False)"
    "isInBounds G (fst a + fst dir) (snd a + snd dir)"
    "manhattan (fst a + fst dir, snd a + snd dir) e = manhattan a e - 1"
proof -
  from assms(1) have "fst a \<noteq> fst e \<or> snd a \<noteq> snd e" by (simp add: prod_eq_iff)
  then consider (east) "fst a < fst e" | (west) "fst e < fst a"
    | (south) "fst a = fst e" "snd a < snd e" | (north) "fst a = fst e" "snd e < snd a"
    by arith
  then show thesis
  proof cases
    case east
    with assms(2,3) show ?thesis
      by (intro that[of "(1, 0)"]) (auto simp: directions_def isInBounds_def manhattan_def)
  next
    case west
    with assms(2,3) show ?thesis
      by (intro that[of "(-1, 0)"]) (auto simp: directions_def isInBounds_def manhattan_def)
  next
    case south
    with assms(2,3) show ?thesis
      by (intro that[of "(0, 1)"]) (auto simp: directions_def isInBounds_def manhattan_def)
  next
    case north
    with assms(2,3) show ?thesis
      by (intro that[of "(0, -1)"]) (auto simp: directions_def isInBounds_def manhattan_def)
  qed
qed

lemma wf_getNeighbors_mem:
  assumes "wf_grid G" "isWalkable G (fst a) (snd a)" "dir \<in> set (directions d)"
    "isWalkable G (fst a + fst dir) (snd a + snd dir)"
  shows "(fst a + fst dir, snd a + snd dir) \<in> set (getNeighbors G a d)"
proof -
  from wf_coordOf[OF assms(1,2)] have "node_x (nodes G a) = fst a" "node_y (nodes G a) = snd a"
    by (simp_all add: coordOf_def prod_eq_iff)
  with assms(3,4) show ?thesis
    unfolding getNeighbors_def collectNeighbors_eq by (simp add: image_iff)
qed

lemma frontier:
  assumes wf: "wf_grid G" and aw: "all_walkable G" and e: "isInBounds G (fst e) (snd e)"
    and inv: "search_inv G s False os cl" and a: "astar_inv G s e os cl"
  shows "\<exists>m\<in>set os. node_f (nodes G m) \<le> manhattan s e"
proof (cases "cl = {}")
  case True
  with search_invD(5)[OF inv] have "os = [s]" by simp
  with a True show ?thesis by (simp add: astar_inv_def)
next
  case False
  note D = search_invD[OF inv]
  from a have ok: "costs_ok G s e os cl" by (simp add: astar_inv_def)
  from False obtain z0 where "z0 \<in> cl" by blast
  then have "\<exists>z. z \<in> cl \<and> (\<forall>y. y \<in> cl \<longrightarrow> nat (manhattan z e) \<le> nat (manhattan y e))"
    by (rule ex_has_least_nat)
  then obtain z where z: "z \<in> cl" "\<And>y. y \<in> cl \<Longrightarrow> nat (manhattan z e) \<le> nat (manhattan y e)"
    by blast
  from ok z(1) have ze: "z \<noteq> e" unfolding costs_ok_def by blast
  from D(3)[of z] z(1) have zw: "isWalkable G (fst z) (snd z)" by simp
  then have zb: "isInBounds G (fst z) (snd z)" by (simp add: isWalkable_def)
  from toward_goal[OF ze zb e] obtain dir where dir: "dir \<in> set (directions False)"
    "isInBounds G (fst z + fst dir) (snd z + snd dir)"
    "manhattan (fst z + fst dir, snd z + snd dir) e = manhattan z e - 1"
    by blast
  let ?n = "(fst z + fst dir, snd z + snd dir)"
  have nw: "isWalkable G (fst z + fst dir) (snd z + snd dir)"
    by (rule all_walkable_isWalkable[OF aw dir(2)])
  have nn: "?n \<in> set (getNeighbors G z False)"
    by (rule wf_getNeighbors_mem[OF wf zw dir(1) nw])
  have nonneg: "0 \<le> manhattan ?n e" by (simp add: manhattan_def)
  have "?n \<notin> cl"
  proof
    assume "?n \<in> cl"
    from z(2)[OF this] dir(3) nonneg show False by simp
  qed
  moreover from a z(1) nn have "settled G os cl z ?n" unfolding astar_inv_def by blast
  ultimately have n: "?n \<in> set os" "node_g (nodes G ?n) \<le> node_g (nodes G z) + 1"
    by (simp_all add: settled_def)
  from ok n(1) have "node_f (nodes G ?n) = node_g (nodes G ?n) + manhattan ?n e"
    unfolding costs_ok_def by blast
  moreover from ok z(1) have "node_f (nodes G z) = node_g (nodes G z) + manhattan z e"
    "node_f (nodes G z) \<le> manhattan s e"
    unfolding costs_ok_def by blast+
  ultimately have "node_f (nodes G ?n) \<le> manhattan s e" using n(2) dir(3) by simp
  with n(1) show ?thesis by blast
qed

lemma selectLowest_least:
  assumes "os \<noteq> []" "selectLowest G os 1 (os ! 0) 0 = (c, k)" "m \<in> set os"
  shows "node_f (nodes G c) \<le> node_f (nodes G m)"
proof -
  from assms(1) have len: "1 \<le> length os" by (cases os) simp_all
  have "k < length os \<and> c = os ! k \<and>
         (\<forall>j<length os. node_f (nodes G c) \<le> node_f (nodes G (os ! j))) \<and>
         (\<forall>j<k. node_f (nodes G c) < node_f (nodes G (os ! j)))"
    by (rule selectLowest_min[OF assms(2) _ len refl]) simp_all
  moreover from assms(3) obtain j where "j < length os" "os ! j = m"
    by (auto simp: in_set_conv_nth)
  ultimately show ?thesis by blast
qed

lemma astar_step:
  assumes wf: "wf_grid G" and aw: "all_walkable G" and e: "isInBounds G (fst e) (snd e)"
    and inv: "search_inv G s False os cl" and a: "astar_inv G s e os cl"
    and ne: "os \<noteq> []" and body: "loopBody G e False os cl = Expanded G' os' cl'"
  shows "astar_inv G' s e os' cl'"
proof -
  from body ne obtain k new where k: "k < length os" "os ! k \<noteq> e"
    and sel: "selectLowest G os 1 (os ! 0) 0 = (os ! k, k)"
    and cl': "cl' = insert (os ! k) cl"
    and f: "fold (visitNeighbor e (os ! k) cl') (getNeighbors G (os ! k) False) (G, splice1 os k)
        = (G', os')"
    and lay: "layout G' = layout G"
    by (rule loopBody_Expanded)
  let ?c = "os ! k"
  note D = search_invD[OF inv]
  from a have ok: "costs_ok G s e os cl"
    and st: "\<And>z n. z \<in> cl \<Longrightarrow> n \<in> set (getNeighbors G z False) \<Longrightarrow> settled G os cl z n"
    unfolding astar_inv_def by blast+
  from frontier[OF wf aw e inv a] obtain m where m: "m \<in> set os"
    "node_f (nodes G m) \<le> manhattan s e" by blast
  from selectLowest_least[OF ne sel m(1)] m(2) have fc: "node_f (nodes G ?c) \<le> manhattan s e"
    by simp
  have S: "set (splice1 os k) = set os - {?c}" by (rule set_splice1[OF D(1) k(1)])
  have mem: "?c \<in> set os" using k(1) by (rule nth_mem)
  have U: "set (splice1 os k) \<union> cl' = set os \<union> cl"
    unfolding S cl' using mem by blast
  have ok1: "costs_ok G s e (splice1 os k) cl'"
    unfolding costs_ok_def U
  proof (intro conjI)
    show "\<forall>a\<in>set os \<union> cl. node_f (nodes G a) = node_g (nodes G a) + manhattan a e"
      using ok unfolding costs_ok_def by blast
    show "\<forall>z\<in>cl'. node_f (nodes G z) \<le> manhattan s e"
      using ok fc unfolding costs_ok_def cl' by blast
    show "e \<notin> cl'" using ok k(2) unfolding costs_ok_def cl' by blast
  qed
  have st1: "settled G (splice1 os k) cl' z n"
    if "z \<in> cl" "n \<in> set (getNeighbors G z False)" for z n
    using st[OF that] unfolding settled_def S cl' by blast
  have ew: "isWalkable G (fst e) (snd e)" by (rule all_walkable_isWalkable[OF aw e])
  have cin: "?c \<in> cl'" by (simp add: cl')
  from astar_fold[OF wf ew cin subset_refl ok1 f] have F:
    "costs_ok G' s e os' cl'"
    "\<And>z m. z \<in> cl' \<Longrightarrow> settled G (splice1 os k) cl' z m \<Longrightarrow> settled G' os' cl' z m"
    "\<And>n. n \<in> set (getNeighbors G ?c False) \<Longrightarrow> settled G' os' cl' ?c n"
    by blast+
  have "settled G' os' cl' z n" if z: "z \<in> cl'" and n: "n \<in> set (getNeighbors G' z False)" for z n
  proof (cases "z = ?c")
    case True
    with n F(3) show ?thesis by (simp add: layout_getNeighbors[OF lay])
  next
    case False
    with z have zc: "z \<in> cl" by (simp add: cl')
    from n have "n \<in> set (getNeighbors G z False)" by (simp add: layout_getNeighbors[OF lay])
    from F(2)[OF z st1[OF zc this]] show ?thesis .
  qed
  with F(1) cin show ?thesis unfolding astar_inv_def by blast
qed

lemma astar_init:
  assumes "wf_grid G" "isWalkable G (fst s) (snd s)" "isWalkable G (fst e) (snd e)"
  shows "astar_inv (initStart G s e) s e [s] {}"
  using wf_heuristic[OF assms]
  by (simp add: astar_inv_def costs_ok_def initStart_nodes)

lemma loopBody_Found_selected:
  assumes "loopBody G e d os cl = Found" "os \<noteq> []"
  obtains k where "selectLowest G os 1 (os ! 0) 0 = (e, k)"
proof -
  obtain c k where sel: "selectLowest G os 1 (os ! 0) 0 = (c, k)"
    by (cases "selectLowest G os 1 (os ! 0) 0")
  from assms(1) have "c = e"
    unfolding loopBody_unfold[OF sel] by (simp split: if_splits prod.splits)
  with sel that show thesis by simp
qed

lemma searchLoop_optimal:
  "\<not> d \<Longrightarrow> wf_grid G \<Longrightarrow> all_walkable G \<Longrightarrow> isInBounds G (fst e) (snd e) \<Longrightarrow>
   search_inv G s d os cl \<Longrightarrow> astar_inv G s e os cl \<Longrightarrow>
   searchLoop G e d os cl = Some (p, G') \<Longrightarrow>
   p \<noteq> [] \<and> node_g (nodes G' e) \<le> manhattan s e"
proof (induction G e d os cl rule: searchLoop.induct)
  case (1 G e d os cl)
  from "1.prems"(1) have d: "d = False" by simp
  note inv = "1.prems"(5)[unfolded d]
  from frontier[OF "1.prems"(2,3,4) inv "1.prems"(6)] obtain m where m: "m \<in> set os"
    "node_f (nodes G m) \<le> manhattan s e" by blast
  then have ne: "os \<noteq> []" by auto
  show ?case
  proof (cases "loopBody G e d os cl")
    case Found
    from loopBody_Found[OF Found ne] have ein: "e \<in> set os \<union> cl" by simp
    from reconstruct_chain[OF "1.prems"(5) ein, of "[]"] obtain q where q:
      "reconstructLoop G (Some e) [] = Some (map (coordOf G) q @ [])" "q \<noteq> []"
      by blast
    with "1.prems"(7) have eq: "p = map (coordOf G) q" "G' = G"
      by (auto simp: searchLoop_Found[OF ne Found] reconstructPath_def)
    from Found ne obtain k where "selectLowest G os 1 (os ! 0) 0 = (e, k)"
      by (rule loopBody_Found_selected)
    from selectLowest_least[OF ne this m(1)] m(2) have "node_f (nodes G e) \<le> manhattan s e"
      by simp
    moreover from "1.prems"(6) ein have "node_f (nodes G e) = node_g (nodes G e) + manhattan e e"
      unfolding astar_inv_def costs_ok_def by blast
    ultimately have "node_g (nodes G e) \<le> manhattan s e" by (simp add: manhattan_def)
    with eq q(2) show ?thesis by simp
  next
    case (Expanded G1 os1 cl1)
    from Expanded ne obtain k new where lay: "layout G1 = layout G"
      by (rule loopBody_Expanded)
    have inv1: "search_inv G1 s d os1 cl1"
      by (rule search_inv_step[OF "1.prems"(5) ne Expanded])
    have a1: "astar_inv G1 s e os1 cl1"
      by (rule astar_step[OF "1.prems"(2,3,4) inv "1.prems"(6) ne Expanded[unfolded d]])
    have wf1: "wf_grid G1" using "1.prems"(2) by (simp add: layout_wf_grid[OF lay])
    have aw1: "all_walkable G1" using "1.prems"(3) by (simp add: layout_all_walkable[OF lay])
    have e1: "isInBounds G1 (fst e) (snd e)"
      using "1.prems"(4) by (simp add: layout_isInBounds[OF lay])
    from "1.prems"(7) have "searchLoop G1 e d os1 cl1 = Some (p, G')"
      by (simp add: searchLoop_Expanded[OF ne Expanded])
    from "1.IH"[OF ne Expanded "1.prems"(1) wf1 aw1 e1 inv1 a1 this] show ?thesis .
  qed
qed

lemma manhattan_step:
  "step_ok False a b \<Longrightarrow> manhattan a c \<le> manhattan b c + 1"
  by (auto simp: step_ok_def directions_def manhattan_def)

lemma walk_lower_bound:
  "successively (step_ok False) p \<Longrightarrow> p \<noteq> [] \<Longrightarrow>
   manhattan (hd p) (last p) \<le> int (length p) - 1"
proof (induction p)
  case Nil
  then show ?case by simp
next
  case (Cons a p)
  show ?case
  proof (cases p)
    case Nil
    then show ?thesis by (simp add: manhattan_def)
  next
    case (Cons b q)
    with Cons.prems have "step_ok False a b" "successively (step_ok False) p" by simp_all
    from manhattan_step[OF this(1), of "last p"] Cons.IH[OF this(2)] Cons
    show ?thesis by simp
  qed
qed


lemma all_walkable_Grid: "all_walkable (Grid w h)"
  by (simp add: all_walkable_def Grid_dims Grid_nodes Node_def)

text \<open>
  C1. On a grid whose cells are all walkable, with in-bounds start and end and
  \<open>diagonal = false\<close>, \<^verbatim>\<open>findPath\<close> returns a non-empty path whose number of edges
  (coordinates minus one) is the Manhattan distance between start and end.
\<close>

theorem findPath_open_grid_manhattan:
  assumes "wf_grid G" "all_walkable G" "isInBounds G startX startY" "isInBounds G endX endY"
  shows "\<exists>path G'. findPath G startX startY endX endY False = Some (path, G') \<and> path \<noteq> [] \<and>
     int (length path) - 1 = \<bar>startX - endX\<bar> + \<bar>startY - endY\<bar>"
proof -
  let ?s = "(startX, startY)" and ?e = "(endX, endY)"
  let ?I = "initStart (reset G) ?s ?e"
  have w: "isWalkable G startX startY" "isWalkable G endX endY"
    using assms(2-4) by (simp_all add: all_walkable_isWalkable)
  obtain path G' where r: "findPath G startX startY endX endY False = Some (path, G')"
    using findPath_total by blast
  then have L: "searchLoop ?I ?e False [?s] {} = Some (path, G')"
    by (simp add: findPath_search[OF w])
  have lay: "layout ?I = layout G"
    using layout_initStart[of "reset G"] layout_reset[of G] by simp
  have wfI: "wf_grid ?I" using assms(1) by (simp add: layout_wf_grid[OF lay])
  have awI: "all_walkable ?I" using assms(2) by (simp add: layout_all_walkable[OF lay])
  have eI: "isInBounds ?I (fst ?e) (snd ?e)"
    using assms(4) by (simp add: layout_isInBounds[OF lay])
  have wfR: "wf_grid (reset G)" using assms(1) by (simp add: layout_wf_grid[OF layout_reset])
  have a: "astar_inv ?I ?s ?e [?s] {}"
    by (rule astar_init[OF wfR]) (simp_all add: isWalkable_reset w)
  have inv: "search_inv ?I ?s False [?s] {}" by (rule search_inv_start[OF w(1)])
  from searchLoop_optimal[OF _ wfI awI eI inv a L]
  have ne: "path \<noteq> []" and up: "node_g (nodes G' ?e) \<le> manhattan ?s ?e" by simp_all
  from findPath_walk[OF assms(1) r ne] have walk: "is_walk G False path"
    and ends: "hd path = ?s" "last path = ?e"
    and len: "int (length path) = node_g (nodes G' ?e) + 1" by simp_all
  from walk have "successively (step_ok False) path" by (simp add: is_walk_def)
  from walk_lower_bound[OF this ne] ends
  have "manhattan ?s ?e \<le> int (length path) - 1" by simp
  with up len have "int (length path) - 1 = manhattan ?s ?e" by simp
  with r ne show ?thesis by (simp add: manhattan_def)
qed

theorem findPath_open_grid_manhattan_witness:
  "wf_grid (Grid 2 2) \<and> all_walkable (Grid 2 2) \<and>
   isInBounds (Grid 2 2) 0 0 \<and> isInBounds (Grid 2 2) 1 1 \<and>
   (\<exists>G'. findPath (Grid 2 2) 0 0 1 1 False = Some ([(0, 0), (1, 0), (1, 1)], G')) \<and>
   int (length [(0, 0), (1, 0), (1, 1) :: coord]) - 1 = \<bar>0 - 1\<bar> + \<bar>0 - 1\<bar>"
proof -
  have h: "wf_grid (Grid 2 2)" "all_walkable (Grid 2 2)"
    "isInBounds (Grid 2 2) 0 0" "isInBounds (Grid 2 2) 1 1"
    by (simp_all add: wf_grid_Grid all_walkable_Grid isInBounds_def Grid_dims)
  from findPath_open_grid_manhattan[OF h] obtain path G' where
    p: "findPath (Grid 2 2) 0 0 1 1 False = Some (path, G')"
      "int (length path) - 1 = \<bar>0 - 1\<bar> + \<bar>0 - 1\<bar>"
    by blast
  from run_open_2x2 p(1) have "path = [(0, 0), (1, 0), (1, 1)]" by auto
  with p h show ?thesis by auto
qed

end
